theory Spec2Isabelle
  imports Complex_Main "HOL-Library.Word"
begin

unbundle bit_operations_syntax

section \<open>Pixels and host byte order\<close>

text \<open>
  \<open>rgba_t\<close> is a \<open>uint32_t\<close> (the header that declares it is not among the sources; the
  shifts and the byte order conversions applied to it show the type). The source converts
  between the host's representation and the fixed little-endian layout with \<open>htole32\<close>
  and \<open>le32toh\<close>, so the host byte order is a parameter of every function that touches a
  packed pixel.
\<close>

type_synonym u8 = "8 word"
type_synonym u32 = "32 word"
type_synonym rgba_t = "32 word"

datatype endian = LittleEndian | BigEndian

definition bswap32 :: "u32 \<Rightarrow> u32" where
  "bswap32 v =
     push_bit 24 (v AND 0xff) OR
     push_bit 16 (drop_bit 8 v AND 0xff) OR
     push_bit 8 (drop_bit 16 v AND 0xff) OR
     (drop_bit 24 v AND 0xff)"

definition htole32 :: "endian \<Rightarrow> u32 \<Rightarrow> u32" where
  "htole32 e v = (case e of LittleEndian \<Rightarrow> v | BigEndian \<Rightarrow> bswap32 v)"

definition le32toh :: "endian \<Rightarrow> u32 \<Rightarrow> u32" where
  "le32toh e v = (case e of LittleEndian \<Rightarrow> v | BigEndian \<Rightarrow> bswap32 v)"

text \<open>
  The four bytes of a 32-bit object at increasing addresses: least significant byte
  first on a little-endian host, most significant byte first on a big-endian one.
\<close>

definition mem_bytes :: "endian \<Rightarrow> u32 \<Rightarrow> u8 list" where
  "mem_bytes e v =
     (case e of
        LittleEndian \<Rightarrow>
          [ucast v, ucast (drop_bit 8 v), ucast (drop_bit 16 v), ucast (drop_bit 24 v)]
      | BigEndian \<Rightarrow>
          [ucast (drop_bit 24 v), ucast (drop_bit 16 v), ucast (drop_bit 8 v), ucast v])"

text \<open>\<open>Framebuffer::to_rgba\<close>; the parameters are \<open>uint8_t\<close>.\<close>

definition to_rgba :: "endian \<Rightarrow> u8 \<Rightarrow> u8 \<Rightarrow> u8 \<Rightarrow> u8 \<Rightarrow> rgba_t" where
  "to_rgba e r g b a =
     htole32 e (push_bit 0 (ucast r :: u32) OR
                push_bit 8 (ucast g :: u32) OR
                push_bit 16 (ucast b :: u32) OR
                push_bit 24 (ucast a :: u32))"

section \<open>Pixel store\<close>

text \<open>
  The class \<open>Framebuffer\<close>. Its members \<open>width_\<close>, \<open>height_\<close> (C \<open>int\<close>s) and
  \<open>pixels_\<close> are the fields \<open>width\<close>, \<open>height\<close> and \<open>pixels\<close>; the array holds
  \<open>width * height\<close> packed pixels in row-major order. The cached row pointer table
  \<open>row_data_\<close> holds addresses only and is left out.
\<close>

record framebuffer =
  width :: int
  height :: int
  pixels :: "rgba_t list"

text \<open>What ends a call abnormally: a failed \<open>assert\<close> (the build keeps assertions).\<close>

datatype fault = AssertionFailure

text \<open>\<open>Framebuffer::Clear\<close>: \<open>memset\<close> of all \<open>width * height\<close> pixels to zero.\<close>

definition Clear :: "framebuffer \<Rightarrow> framebuffer" where
  "Clear fb = fb\<lparr>pixels := replicate (nat (width fb * height fb)) 0\<rparr>"

text \<open>The constructor allocates \<open>w * h\<close> pixels and clears them.\<close>

definition Framebuffer :: "int \<Rightarrow> int \<Rightarrow> framebuffer" where
  "Framebuffer w h =
     Clear \<lparr>width = w, height = h, pixels = replicate (nat (w * h)) 0\<rparr>"

definition SetPixel :: "int \<Rightarrow> int \<Rightarrow> rgba_t \<Rightarrow> framebuffer \<Rightarrow> framebuffer" where
  "SetPixel x y v fb =
     (if x < 0 \<or> x \<ge> width fb \<or> y < 0 \<or> y \<ge> height fb then fb
      else fb\<lparr>pixels := (pixels fb)[nat (width fb * y + x) := v]\<rparr>)"

text \<open>\<open>Framebuffer::at\<close>, named \<open>at_xy\<close> here (\<open>at\<close> is a filter of the library).\<close>

definition at_xy :: "int \<Rightarrow> int \<Rightarrow> framebuffer \<Rightarrow> fault + rgba_t" where
  "at_xy x y fb =
     (if x \<ge> 0 \<and> x < width fb \<and> y \<ge> 0 \<and> y < height fb
      then Inr (pixels fb ! nat (width fb * y + x))
      else Inl AssertionFailure)"

text \<open>
  The store invariant that the constructor establishes: the array has exactly
  \<open>width * height\<close> pixels.
\<close>

definition store_ok :: "framebuffer \<Rightarrow> bool" where
  "store_ok fb \<longleftrightarrow>
     0 \<le> width fb \<and> 0 \<le> height fb \<and>
     length (pixels fb) = nat (width fb * height fb)"

section \<open>Compositor\<close>

text \<open>The integer square root, by halving: the largest \<open>r\<close> with \<open>r * r \<le> n\<close>.\<close>

fun isqrt :: "nat \<Rightarrow> nat" where
  "isqrt n =
     (if n = 0 then 0
      else let r = 2 * isqrt (n div 4)
           in if (r + 1) * (r + 1) \<le> n then r + 1 else r)"

declare isqrt.simps [simp del]

text \<open>
  \<open>uint32_t out = sqrtf(v)\<close> for a \<open>uint32_t\<close> value \<open>v\<close>: the value is converted to
  \<open>float\<close>, its square root is taken in single precision, and the result is truncated
  towards zero on conversion back. Every \<open>v < 2^24\<close> is a \<open>float\<close>, and the correctly
  rounded root of a number below \<open>2^24\<close> that is not a square stays strictly between two
  integers, so the truncated result is the integer square root. The compositor only
  passes values up to \<open>255 * 255\<close> (lemma \<open>blend_arg_le\<close>).
\<close>

definition sqrtf_u32 :: "u32 \<Rightarrow> u32" where
  "sqrtf_u32 v = of_nat (isqrt (unat v))"

text \<open>
  The static function \<open>AlphaBlend\<close>; \<open>bg\<close> points to three \<open>uint32_t\<close>. The alpha is
  read from \<open>c\<close> itself, the colour channels from the converted \<open>col\<close>.
\<close>

definition blend_channel :: "u32 \<Rightarrow> u32 \<Rightarrow> u32 \<Rightarrow> u32" where
  "blend_channel fgc bgc alpha =
     sqrtf_u32 ((fgc * fgc * alpha + bgc * (0xFF - alpha)) div 0xff)"

definition AlphaBlend :: "endian \<Rightarrow> u32 list \<Rightarrow> rgba_t \<Rightarrow> rgba_t" where
  "AlphaBlend e bg c =
     (let col = le32toh e c;
          alpha = drop_bit 24 c
      in if alpha = 0xff then c
         else
           let fgc = [drop_bit 0 col AND 0xff, drop_bit 8 col AND 0xff,
                      drop_bit 16 col AND 0xff];
               out = map (\<lambda>i. blend_channel (fgc ! i) (bg ! i) alpha) [0, 1, 2]
           in to_rgba e (ucast (out ! 0)) (ucast (out ! 1)) (ucast (out ! 2)) 0xff)"

text \<open>
  The two nested loops of \<open>AlphaComposeBackground\<close>: \<open>y\<close> over the rows, \<open>x\<close> over the
  columns, with the pointer \<open>pos\<close> advancing by one pixel at every step.
\<close>

definition blend_step ::
  "endian \<Rightarrow> u32 list list \<Rightarrow> nat \<Rightarrow> nat \<Rightarrow> rgba_t list \<times> nat \<Rightarrow> rgba_t list \<times> nat" where
  "blend_step e bg_choice y x st =
     (case st of (px, pos) \<Rightarrow>
        (px[pos := AlphaBlend e (bg_choice ! ((x + y) mod 2)) (px ! pos)], pos + 1))"

definition blend_rows ::
  "endian \<Rightarrow> u32 list list \<Rightarrow> nat \<Rightarrow> nat \<Rightarrow> rgba_t list \<Rightarrow> rgba_t list" where
  "blend_rows e bg_choice w h px =
     fst (fold (\<lambda>y. fold (blend_step e bg_choice y) [0..<w]) [0..<h] (px, 0))"

definition linear_color :: "u32 \<Rightarrow> u32 list" where
  "linear_color col =
     [(col AND 0xff) * (col AND 0xff),
      (drop_bit 8 col AND 0xff) * (drop_bit 8 col AND 0xff),
      (drop_bit 16 col AND 0xff) * (drop_bit 16 col AND 0xff)]"

definition AlphaComposeBackground ::
  "endian \<Rightarrow> rgba_t \<Rightarrow> rgba_t \<Rightarrow> framebuffer \<Rightarrow> fault + framebuffer" where
  "AlphaComposeBackground e bgcolor pattern_col fb =
     (let bcol = le32toh e bgcolor;
          bg_alpha = drop_bit 24 bcol
      in if bg_alpha = 0x00 then Inr fb
         else if bg_alpha \<noteq> 0xff then Inl AssertionFailure
         else
           let linear_bg = linear_color bcol;
               pcol = le32toh e pattern_col;
               bg_choice = (if drop_bit 24 pcol = 0xff then [linear_bg, linear_color pcol]
                            else [linear_bg, linear_bg])
           in Inr (fb\<lparr>pixels :=
                blend_rows e bg_choice (nat (width fb)) (nat (height fb)) (pixels fb)\<rparr>))"

text \<open>
  The value that the specification gives for one channel: the truncated square root of
  \<open>(src\<^sup>2 * a + backdrop\<^sup>2 * (255 - a)) div 255\<close>, for bytes \<open>src\<close>, \<open>backdrop\<close> and \<open>a\<close>.
\<close>

definition spec_channel :: "nat \<Rightarrow> nat \<Rightarrow> nat \<Rightarrow> nat" where
  "spec_channel src backdrop a =
     nat \<lfloor>sqrt (real ((src * src * a + backdrop * backdrop * (255 - a)) div 255))\<rfloor>"

text \<open>
  The backdrop that the specification names for the pixel at \<open>(x, y)\<close>: the pattern where
  the pattern is opaque and \<open>x + y\<close> is odd, the background otherwise.
\<close>

definition chosen_backdrop :: "endian \<Rightarrow> rgba_t \<Rightarrow> rgba_t \<Rightarrow> int \<Rightarrow> int \<Rightarrow> rgba_t" where
  "chosen_backdrop e bgcolor pattern_col x y =
     (if mem_bytes e pattern_col ! 3 = 255 \<and> odd (x + y) then pattern_col else bgcolor)"

section \<open>Color codec\<close>

subsection \<open>Character classes of the C locale\<close>

definition isspace :: "char \<Rightarrow> bool" where
  "isspace c \<longleftrightarrow> c = CHR '' '' \<or> (9 \<le> (of_char c :: nat) \<and> (of_char c :: nat) \<le> 13)"

definition isalpha :: "char \<Rightarrow> bool" where
  "isalpha c \<longleftrightarrow>
     (65 \<le> (of_char c :: nat) \<and> (of_char c :: nat) \<le> 90) \<or>
     (97 \<le> (of_char c :: nat) \<and> (of_char c :: nat) \<le> 122)"

definition tolower :: "char \<Rightarrow> char" where
  "tolower c =
     (if 65 \<le> (of_char c :: nat) \<and> (of_char c :: nat) \<le> 90
      then char_of ((of_char c :: nat) + 32) else c)"

text \<open>The value of a decimal digit and of a hexadecimal digit.\<close>

definition digit_val :: "char \<Rightarrow> nat option" where
  "digit_val c =
     (if 48 \<le> (of_char c :: nat) \<and> (of_char c :: nat) \<le> 57
      then Some ((of_char c :: nat) - 48) else None)"

definition xdigit_val :: "char \<Rightarrow> nat option" where
  "xdigit_val c =
     (if 48 \<le> (of_char c :: nat) \<and> (of_char c :: nat) \<le> 57 then Some ((of_char c :: nat) - 48)
      else if 97 \<le> (of_char c :: nat) \<and> (of_char c :: nat) \<le> 102 then Some ((of_char c :: nat) - 87)
      else if 65 \<le> (of_char c :: nat) \<and> (of_char c :: nat) \<le> 70 then Some ((of_char c :: nat) - 55)
      else None)"

text \<open>
  \<open>strcasecmp\<close>: the strings are compared byte by byte after \<open>tolower\<close>; the result is
  zero exactly when they agree, and the difference of the first two bytes that differ
  otherwise (the end of a string counts as the byte 0).
\<close>

fun strcasecmp :: "string \<Rightarrow> string \<Rightarrow> int" where
  "strcasecmp [] [] = 0"
| "strcasecmp [] (b # bs) = - int (of_char (tolower b))"
| "strcasecmp (a # as) [] = int (of_char (tolower a))"
| "strcasecmp (a # as) (b # bs) =
     (if tolower a = tolower b then strcasecmp as bs
      else int (of_char (tolower a)) - int (of_char (tolower b)))"

subsection \<open>The conversions of \<open>sscanf\<close> that the formats use\<close>

text \<open>
  A format is a list of directives: an ordinary character, white space, or a
  conversion \<open>%d\<close> or \<open>%x\<close> with an optional maximum field width.
\<close>

datatype conv = ConvD | ConvX

datatype directive = Lit char | WhiteSpace | Percent "nat option" conv

text \<open>
  Reading digits: at most as many as the remaining field width allows. The result is
  the value read, the number of digits and the rest of the input.
\<close>

fun scan_digits ::
  "(char \<Rightarrow> nat option) \<Rightarrow> nat \<Rightarrow> nat option \<Rightarrow> nat \<Rightarrow> nat \<Rightarrow> string \<Rightarrow> nat \<times> nat \<times> string" where
  "scan_digits dv base w acc cnt [] = (acc, cnt, [])"
| "scan_digits dv base w acc cnt (c # cs) =
     (if w = Some 0 then (acc, cnt, c # cs)
      else case dv c of
             None \<Rightarrow> (acc, cnt, c # cs)
           | Some d \<Rightarrow>
               scan_digits dv base (map_option (\<lambda>k. k - 1) w) (acc * base + d) (cnt + 1) cs)"

datatype scan_result = Item u32 string | MatchFailure | InputFailure

text \<open>
  The conversions follow \<open>sscanf\<close> of the GNU C library on a host whose \<open>long\<close> has 64
  bits. The characters of the number are collected first: a sign, a leading \<open>0\<close>, for
  \<open>%x\<close> an \<open>x\<close> or \<open>X\<close> after that \<open>0\<close> (read and dropped), and then the digits, each
  character only while the field width allows it.
\<close>

definition scan_sign :: "nat option \<Rightarrow> string \<Rightarrow> bool \<times> nat option \<times> string" where
  "scan_sign w inp =
     (case inp of
        c # cs \<Rightarrow>
          if c = CHR ''-'' \<or> c = CHR ''+''
          then (c = CHR ''-'', map_option (\<lambda>k. k - 1) w, cs)
          else (False, w, inp)
      | [] \<Rightarrow> (False, w, inp))"

text \<open>
  The leading \<open>0\<close>: the result tells whether one was collected. For \<open>%x\<close> an \<open>x\<close> after it
  is consumed as well; for \<open>%d\<close> it stays in the input.
\<close>

definition scan_leading_zero ::
  "conv \<Rightarrow> nat option \<Rightarrow> string \<Rightarrow> bool \<times> nat option \<times> string" where
  "scan_leading_zero cv w inp =
     (case inp of
        c # cs \<Rightarrow>
          if w \<noteq> Some 0 \<and> c = CHR ''0''
          then
            let w1 = map_option (\<lambda>k. k - 1) w
            in (case cs of
                  d # ds \<Rightarrow>
                    if w1 \<noteq> Some 0 \<and> (d = CHR ''x'' \<or> d = CHR ''X'') \<and> cv = ConvX
                    then (True, map_option (\<lambda>k. k - 1) w1, ds)
                    else (True, w1, cs)
                | [] \<Rightarrow> (True, w1, cs))
          else (False, w, inp)
      | [] \<Rightarrow> (False, w, inp))"

text \<open>
  The collected number is converted by \<open>strtol\<close> (for \<open>%d\<close>) or \<open>strtoul\<close> (for \<open>%x\<close>) to
  a 64-bit \<open>long\<close>: a value out of range becomes \<open>LONG_MAX\<close>, \<open>LONG_MIN\<close> or
  \<open>ULONG_MAX\<close>, and \<open>strtoul\<close> negates a value with a minus sign in the unsigned type.
  The arguments here are the sign and the magnitude of the number.
\<close>

definition strtol_value :: "bool \<Rightarrow> nat \<Rightarrow> 64 word" where
  "strtol_value neg n =
     (if neg then (if n \<le> 9223372036854775808 then - of_nat n else 0x8000000000000000)
      else (if n \<le> 9223372036854775807 then of_nat n else 0x7FFFFFFFFFFFFFFF))"

definition strtoul_value :: "bool \<Rightarrow> nat \<Rightarrow> 64 word" where
  "strtoul_value neg n =
     (if n \<le> 18446744073709551615 then (if neg then - of_nat n else of_nat n)
      else 0xFFFFFFFFFFFFFFFF)"

text \<open>
  One conversion. White space is skipped first. No input left is an input failure; no
  digit collected (nothing, or only a sign) is a matching failure. The \<open>long\<close> is
  stored through the cast to \<open>int\<close> or \<open>unsigned int\<close>, which keeps its low 32 bits.
\<close>

definition scan_conv :: "conv \<Rightarrow> nat option \<Rightarrow> string \<Rightarrow> scan_result" where
  "scan_conv cv w inp =
     (let inp1 = dropWhile isspace inp
      in if inp1 = [] then InputFailure
         else
           case scan_sign w inp1 of (neg, w1, inp2) \<Rightarrow>
             case scan_leading_zero cv w1 inp2 of (zero, w2, inp3) \<Rightarrow>
               (case cv of
                  ConvD \<Rightarrow>
                    (case scan_digits digit_val 10 w2 0 0 inp3 of (n, cnt, rest) \<Rightarrow>
                       if \<not> zero \<and> cnt = 0 then MatchFailure
                       else Item (ucast (strtol_value neg n)) rest)
                | ConvX \<Rightarrow>
                    (case scan_digits xdigit_val 16 w2 0 0 inp3 of (n, cnt, rest) \<Rightarrow>
                       if \<not> zero \<and> cnt = 0 then MatchFailure
                       else Item (ucast (strtoul_value neg n)) rest)))"

text \<open>
  The return value of \<open>sscanf\<close>: the number of items assigned, or \<open>EOF\<close> when the
  input ends before the first conversion has completed.
\<close>

definition EOF :: int where
  "EOF = - 1"

definition on_input_failure :: "u32 list \<Rightarrow> int" where
  "on_input_failure vals = (if vals = [] then EOF else int (length vals))"

fun run_directives :: "directive list \<Rightarrow> string \<Rightarrow> u32 list \<Rightarrow> int \<times> u32 list" where
  "run_directives [] inp vals = (int (length vals), vals)"
| "run_directives (Lit c # ds) inp vals =
     (case inp of
        [] \<Rightarrow> (on_input_failure vals, vals)
      | i # rest \<Rightarrow>
          if i = c then run_directives ds rest vals else (int (length vals), vals))"
| "run_directives (WhiteSpace # ds) inp vals = run_directives ds (dropWhile isspace inp) vals"
| "run_directives (Percent w cv # ds) inp vals =
     (case scan_conv cv w inp of
        Item v rest \<Rightarrow> run_directives ds rest (vals @ [v])
      | MatchFailure \<Rightarrow> (int (length vals), vals)
      | InputFailure \<Rightarrow> (on_input_failure vals, vals))"

definition sscanf :: "string \<Rightarrow> directive list \<Rightarrow> int \<times> u32 list" where
  "sscanf inp fmt = run_directives fmt inp []"

text \<open>The three formats of \<open>ParseColor\<close>, in the order in which it tries them.\<close>

definition fmt_hex :: "directive list" where \<comment> \<open>\<^verbatim>\<open>#%02x%02x%02x\<close>\<close>
  "fmt_hex =
     [Lit (CHR ''#''), Percent (Some 2) ConvX, Percent (Some 2) ConvX, Percent (Some 2) ConvX]"

definition fmt_rgb_dec :: "directive list" where \<comment> \<open>\<^verbatim>\<open>rgb(%d, %d, %d)\<close>\<close>
  "fmt_rgb_dec =
     map Lit ''rgb('' @
     [Percent None ConvD, Lit (CHR '',''), WhiteSpace,
      Percent None ConvD, Lit (CHR '',''), WhiteSpace,
      Percent None ConvD, Lit (CHR '')'')]"

definition fmt_rgb_hex :: "directive list" where \<comment> \<open>\<^verbatim>\<open>rgb(0x%x, 0x%x, 0x%x)\<close>\<close>
  "fmt_rgb_hex =
     map Lit ''rgb(0x'' @
     [Percent None ConvX, Lit (CHR '',''), WhiteSpace, Lit (CHR ''0''), Lit (CHR ''x''),
      Percent None ConvX, Lit (CHR '',''), WhiteSpace, Lit (CHR ''0''), Lit (CHR ''x''),
      Percent None ConvX, Lit (CHR '')'')]"

text \<open>
  The chain of \<open>||\<close>: the formats are tried in order, and the first call that returns 3
  gives the three values.
\<close>

fun scan_first :: "directive list list \<Rightarrow> string \<Rightarrow> (u32 list) option" where
  "scan_first [] inp = None"
| "scan_first (f # fs) inp =
     (case sscanf inp f of (n, vals) \<Rightarrow> if n = 3 then Some vals else scan_first fs inp)"

subsection \<open>\<open>ParseColor\<close>\<close>

text \<open>
  The table \<open>html_colors\<close> comes from \<open>html-colors.inc\<close>, which is not part of the
  sources at hand: it is a parameter, a list of pairs of a name and its translation.
  The loop takes the translation of the first name that matches.
\<close>

fun translate_named :: "(string \<times> string) list \<Rightarrow> string \<Rightarrow> string" where
  "translate_named [] color = color"
| "translate_named ((name, translation) # cs) color =
     (if strcasecmp color name = 0 then translation else translate_named cs color)"

definition diagnostic :: "string \<Rightarrow> string" where
  "diagnostic color =
     ''Couldn'' @ [CHR 0x27] @ ''t parse color '' @ [CHR 0x27] @ color @ [CHR 0x27, CHR 0x0A]"

text \<open>
  The result is the pixel returned together with the lines written to \<open>stderr\<close>. The
  argument is \<open>None\<close> for a null pointer. \<open>ParseColor\<close> always returns; its result
  has the form of the results of the operations that can fail.
\<close>

definition ParseColor ::
  "endian \<Rightarrow> (string \<times> string) list \<Rightarrow> string option \<Rightarrow> fault + (rgba_t \<times> string list)" where
  "ParseColor e html_colors color =
     (case color of
        None \<Rightarrow> Inr (to_rgba e 0 0 0 0, [])
      | Some text \<Rightarrow>
          let color1 = translate_named html_colors text
          in case scan_first [fmt_hex, fmt_rgb_dec, fmt_rgb_hex] color1 of
               Some vals \<Rightarrow>
                 Inr (to_rgba e (ucast (vals ! 0)) (ucast (vals ! 1)) (ucast (vals ! 2)) 0xff, [])
             | None \<Rightarrow> Inr (to_rgba e 0 0 0 0, [diagnostic color1]))"

text \<open>
  Names as in the table of HTML colors: not empty, letters only.
\<close>

definition names_alphabetic :: "(string \<times> string) list \<Rightarrow> bool" where
  "names_alphabetic html_colors \<longleftrightarrow>
     list_all (\<lambda>(name, translation). name \<noteq> [] \<and> list_all isalpha name) html_colors"

text \<open>
  The texts \<open>rgb(R, G, B)\<close> with decimal components: each component is a numeral, a
  non-empty string of decimal digits, and white space (any number of blanks, also none)
  may stand before each component.
\<close>

definition is_numeral :: "string \<Rightarrow> bool" where
  "is_numeral ds \<longleftrightarrow> ds \<noteq> [] \<and> list_all (\<lambda>c. digit_val c \<noteq> None) ds"

definition numeral_value :: "string \<Rightarrow> nat" where
  "numeral_value ds = foldl (\<lambda>a c. a * 10 + (case digit_val c of Some d \<Rightarrow> d | None \<Rightarrow> 0)) 0 ds"

definition rgb_input :: "string \<Rightarrow> string \<Rightarrow> string \<Rightarrow> string \<Rightarrow> string \<Rightarrow> string \<Rightarrow> string" where
  "rgb_input s1 r s2 g s3 b = ''rgb('' @ s1 @ r @ '','' @ s2 @ g @ '','' @ s3 @ b @ '')''"

text \<open>The decimal numeral of a natural number, without leading zeros.\<close>

fun decimal :: "nat \<Rightarrow> string" where
  "decimal n =
     (if n < 10 then [char_of (48 + n)]
      else decimal (n div 10) @ [char_of (48 + n mod 10)])"

declare decimal.simps [simp del]

text \<open>
  The byte that a decimal component becomes: the component modulo 256 up to
  \<open>LONG_MAX\<close>, and 255 beyond, where the conversion saturates.
\<close>

definition LONG_MAX :: nat where
  "LONG_MAX = 9223372036854775807"

definition component_byte :: "nat \<Rightarrow> u8" where
  "component_byte n = (if n \<le> LONG_MAX then of_nat n else 255)"

text \<open>
  A text that is empty, or that has a character other than a letter after a (possibly
  empty) run of letters, matches no alphabetic name: the loop leaves it as it is.
\<close>

definition not_a_name :: "string \<Rightarrow> bool" where
  "not_a_name s \<longleftrightarrow>
     (case dropWhile isalpha s of [] \<Rightarrow> s = [] | c # rest \<Rightarrow> (of_char c :: nat) \<noteq> 0)"

text \<open>The input after a number: nothing, or a character that is not a decimal digit.\<close>

definition no_digit_ahead :: "string \<Rightarrow> bool" where
  "no_digit_ahead rest \<longleftrightarrow> (case rest of [] \<Rightarrow> True | c # cs \<Rightarrow> digit_val c = None)"

section \<open>Packed pixel layout\<close>

lemma bit_u8_high: "8 \<le> n \<Longrightarrow> \<not> bit (w::u8) n"
  using bit_imp_le_length [of w n] by auto

lemma and_0xff: "(x::u32) AND 0xff = ucast (ucast x :: u8)"
proof -
  have m: "(0xff::u32) = mask 8" by (simp add: mask_eq_exp_minus_1)
  have "x AND mask 8 = ucast (ucast x :: u8)"
    by (rule bit_word_eqI) (auto simp add: bit_simps)
  with m show ?thesis by simp
qed

lemma ucast_pack_byte0:
  "(ucast ((ucast (r::u8) :: u32) OR push_bit 8 (ucast (g::u8)) OR
           push_bit 16 (ucast (b::u8)) OR push_bit 24 (ucast (a::u8))) :: u8) = r"
  by (rule bit_word_eqI) (auto simp add: bit_simps bit_u8_high)

lemma ucast_pack_byte1:
  "(ucast (drop_bit 8 ((ucast (r::u8) :: u32) OR push_bit 8 (ucast (g::u8)) OR
           push_bit 16 (ucast (b::u8)) OR push_bit 24 (ucast (a::u8)))) :: u8) = g"
  by (rule bit_word_eqI) (auto simp add: bit_simps bit_u8_high)

lemma ucast_pack_byte2:
  "(ucast (drop_bit 16 ((ucast (r::u8) :: u32) OR push_bit 8 (ucast (g::u8)) OR
           push_bit 16 (ucast (b::u8)) OR push_bit 24 (ucast (a::u8)))) :: u8) = b"
  by (rule bit_word_eqI) (auto simp add: bit_simps bit_u8_high)

lemma ucast_pack_byte3:
  "(ucast (drop_bit 24 ((ucast (r::u8) :: u32) OR push_bit 8 (ucast (g::u8)) OR
           push_bit 16 (ucast (b::u8)) OR push_bit 24 (ucast (a::u8)))) :: u8) = a"
  by (rule bit_word_eqI) (auto simp add: bit_simps bit_u8_high)

lemma bswap32_pack:
  "bswap32 ((ucast (r::u8) :: u32) OR push_bit 8 (ucast (g::u8)) OR
            push_bit 16 (ucast (b::u8)) OR push_bit 24 (ucast (a::u8))) =
   (ucast a :: u32) OR push_bit 8 (ucast b) OR push_bit 16 (ucast g) OR push_bit 24 (ucast r)"
  unfolding bswap32_def and_0xff
  by (simp only: ucast_pack_byte0 ucast_pack_byte1 ucast_pack_byte2 ucast_pack_byte3)
    (simp add: ac_simps)

text \<open>The bytes of a packed pixel in memory, used throughout.\<close>

lemma mem_bytes_to_rgba: "mem_bytes e (to_rgba e r g b a) = [r, g, b, a]"
proof (cases e)
  case LittleEndian
  then show ?thesis
    unfolding mem_bytes_def to_rgba_def htole32_def push_bit_0_id
    by (simp only: endian.case id_apply
        ucast_pack_byte0 ucast_pack_byte1 ucast_pack_byte2 ucast_pack_byte3)
next
  case BigEndian
  then show ?thesis
    unfolding mem_bytes_def to_rgba_def htole32_def push_bit_0_id
    by (simp only: endian.case id_apply bswap32_pack
        ucast_pack_byte0 ucast_pack_byte1 ucast_pack_byte2 ucast_pack_byte3)
qed

text \<open>
  C6. For all channel values, the in-memory byte sequence of \<open>to_rgba r g b a\<close> is
  red, green, blue, alpha in this order, whatever the host byte order.
\<close>

theorem to_rgba_mem_bytes: "mem_bytes e (to_rgba e r g b a) = [r, g, b, a]"
proof (cases e)
  case LittleEndian
  then show ?thesis
    unfolding mem_bytes_def to_rgba_def htole32_def push_bit_0_id
    by (simp only: endian.case id_apply
        ucast_pack_byte0 ucast_pack_byte1 ucast_pack_byte2 ucast_pack_byte3)
next
  case BigEndian
  then show ?thesis
    unfolding mem_bytes_def to_rgba_def htole32_def push_bit_0_id
    by (simp only: endian.case id_apply bswap32_pack
        ucast_pack_byte0 ucast_pack_byte1 ucast_pack_byte2 ucast_pack_byte3)
qed

section \<open>Reading and writing pixels\<close>

lemma store_ok_Framebuffer: "0 \<le> w \<Longrightarrow> 0 \<le> h \<Longrightarrow> store_ok (Framebuffer w h)"
  by (simp add: store_ok_def Framebuffer_def Clear_def)

lemma store_ok_SetPixel: "store_ok fb \<Longrightarrow> store_ok (SetPixel x y v fb)"
  by (simp add: store_ok_def SetPixel_def)

lemma store_ok_Clear: "store_ok fb \<Longrightarrow> store_ok (Clear fb)"
  by (simp add: store_ok_def Clear_def)

lemma index_in_store:
  assumes "store_ok fb" "0 \<le> x" "x < width fb" "0 \<le> y" "y < height fb"
  shows "nat (width fb * y + x) < length (pixels fb)"
proof -
  have "width fb * y + x < width fb * (y + 1)"
    using assms by (simp add: algebra_simps)
  also have "\<dots> \<le> width fb * height fb"
    using assms by (intro mult_left_mono) auto
  finally have "width fb * y + x < width fb * height fb" .
  with assms show ?thesis by (simp add: store_ok_def)
qed

text \<open>
  C7. In a store with \<open>width * height\<close> pixels, for every position inside the bounds and
  every pixel value, \<open>SetPixel\<close> followed by \<open>at\<close> at the same position returns that value.
\<close>

theorem at_SetPixel:
  assumes "store_ok fb" "0 \<le> x" "x < width fb" "0 \<le> y" "y < height fb"
  shows "at_xy x y (SetPixel x y p fb) = Inr p"
  using assms index_in_store [OF assms]
  by (simp add: at_xy_def SetPixel_def)

theorem at_SetPixel_witness:
  "store_ok (Framebuffer 3 2) \<and> (0::int) \<le> 2 \<and> 2 < width (Framebuffer 3 2) \<and>
   (0::int) \<le> 1 \<and> 1 < height (Framebuffer 3 2) \<and>
   at_xy 2 1 (SetPixel 2 1 0x11223344 (Framebuffer 3 2)) = Inr 0x11223344"
proof -
  have ok: "store_ok (Framebuffer 3 2)" by (simp add: store_ok_Framebuffer)
  have b: "(0::int) \<le> 2" "2 < width (Framebuffer 3 2)" "(0::int) \<le> 1" "1 < height (Framebuffer 3 2)"
    by (simp_all add: Framebuffer_def Clear_def)
  from at_SetPixel [OF ok b, of "0x11223344"] ok b show ?thesis by simp
qed

text \<open>
  C8. For every position outside the bounds, \<open>SetPixel\<close> returns the store as it was:
  no pixel changes, and the function has no failure and writes no diagnostic.
\<close>

theorem SetPixel_outside:
  assumes "\<not> (0 \<le> x \<and> x < width fb \<and> 0 \<le> y \<and> y < height fb)"
  shows "SetPixel x y p fb = fb"
  using assms by (auto simp add: SetPixel_def)

theorem SetPixel_outside_witness:
  "\<not> (0 \<le> (3::int) \<and> 3 < width (Framebuffer 3 2) \<and> 0 \<le> (1::int) \<and> 1 < height (Framebuffer 3 2)) \<and>
   SetPixel 3 1 0x11223344 (Framebuffer 3 2) = Framebuffer 3 2"
proof -
  have h: "\<not> (0 \<le> (3::int) \<and> 3 < width (Framebuffer 3 2) \<and> 0 \<le> (1::int) \<and> 1 < height (Framebuffer 3 2))"
    by (simp add: Framebuffer_def Clear_def)
  from SetPixel_outside [OF h, of "0x11223344"] h show ?thesis by blast
qed

section \<open>Compositor: the background's alpha\<close>

text \<open>
  The alpha of a pixel is the fourth byte of its memory representation. For the
  background, \<open>AlphaComposeBackground\<close> reads it from the converted value.
\<close>

lemma bit_u32_high: "32 \<le> n \<Longrightarrow> \<not> bit (w::u32) n"
  using bit_imp_le_length [of w n] by auto

lemma bit_u32_24: "bit (c::u32) (24 + n) \<Longrightarrow> n < 8"
  using bit_imp_le_length [of c "24 + n"] by simp

lemma ucast_u8_roundtrip: "(ucast (ucast (a::u8) :: u32) :: u8) = a"
  by (rule bit_word_eqI) (auto simp add: bit_simps)

lemma ucast_u8_eq_iff: "(ucast (a::u8) :: u32) = ucast b \<longleftrightarrow> a = b"
  by (metis ucast_u8_roundtrip)

lemma drop_bit_24_byte: "drop_bit 24 (c::u32) = ucast (ucast (drop_bit 24 c) :: u8)"
proof (rule bit_word_eqI)
  fix n
  assume n: "n < LENGTH(32)"
  have *: "bit c (24 + n) \<longrightarrow> n < 8"
    using bit_imp_le_length [of c "24 + n"] by simp
  show "bit (drop_bit 24 c) n \<longleftrightarrow> bit (ucast (ucast (drop_bit 24 c) :: u8) :: u32) n"
    using * n by (simp add: bit_simps) auto
qed

lemma drop_bit_24_bswap32: "drop_bit 24 (bswap32 c) = ucast (ucast c :: u8)"
  unfolding bswap32_def and_0xff
  by (rule bit_word_eqI) (auto simp add: bit_simps bit_u8_high)

lemma drop_bit_24_le32toh:
  "drop_bit 24 (le32toh e c) = ucast (mem_bytes e c ! 3)"
proof (cases e)
  case LittleEndian
  then show ?thesis
    using drop_bit_24_byte [of c] by (simp add: le32toh_def mem_bytes_def)
next
  case BigEndian
  then show ?thesis
    by (simp add: le32toh_def mem_bytes_def drop_bit_24_bswap32)
qed

text \<open>
  C5. With a background whose alpha byte is 0, \<open>AlphaComposeBackground\<close> returns at once
  and the store is the one before the call, for every store and every pattern pixel.
\<close>

theorem AlphaComposeBackground_transparent_bg:
  assumes "mem_bytes e bgcolor ! 3 = 0"
  shows "AlphaComposeBackground e bgcolor pattern_col fb = Inr fb"
  using assms by (simp add: AlphaComposeBackground_def drop_bit_24_le32toh)

theorem AlphaComposeBackground_transparent_bg_witness:
  "mem_bytes BigEndian (to_rgba BigEndian 9 8 7 0) ! 3 = 0 \<and>
   AlphaComposeBackground BigEndian (to_rgba BigEndian 9 8 7 0) (to_rgba BigEndian 1 2 3 255)
     (SetPixel 0 0 (to_rgba BigEndian 5 5 5 100) (Framebuffer 1 1)) =
   Inr (SetPixel 0 0 (to_rgba BigEndian 5 5 5 100) (Framebuffer 1 1))"
proof -
  have h: "mem_bytes BigEndian (to_rgba BigEndian 9 8 7 0) ! 3 = 0"
    by (simp add: mem_bytes_to_rgba)
  from AlphaComposeBackground_transparent_bg [OF h] h show ?thesis by blast
qed

text \<open>
  C9. With a background whose alpha byte is neither 0 nor 255, the assertion fails: the
  call ends with the assertion failure and no pixel is blended.
\<close>

theorem AlphaComposeBackground_semi_transparent_bg:
  assumes "mem_bytes e bgcolor ! 3 \<noteq> 0" "mem_bytes e bgcolor ! 3 \<noteq> 255"
  shows "AlphaComposeBackground e bgcolor pattern_col fb = Inl AssertionFailure"
proof -
  have "(ucast (mem_bytes e bgcolor ! 3) :: u32) \<noteq> 0"
    using assms(1) ucast_u8_eq_iff [of "mem_bytes e bgcolor ! 3" 0] by simp
  moreover have "(ucast (mem_bytes e bgcolor ! 3) :: u32) \<noteq> 0xff"
    using assms(2) ucast_u8_eq_iff [of "mem_bytes e bgcolor ! 3" 255] by simp
  ultimately show ?thesis
    by (simp add: AlphaComposeBackground_def drop_bit_24_le32toh)
qed

theorem AlphaComposeBackground_semi_transparent_bg_witness:
  "mem_bytes LittleEndian (to_rgba LittleEndian 9 8 7 128) ! 3 \<noteq> 0 \<and>
   mem_bytes LittleEndian (to_rgba LittleEndian 9 8 7 128) ! 3 \<noteq> 255 \<and>
   AlphaComposeBackground LittleEndian (to_rgba LittleEndian 9 8 7 128) 0 (Framebuffer 2 2) =
   Inl AssertionFailure"
proof -
  have h: "mem_bytes LittleEndian (to_rgba LittleEndian 9 8 7 128) ! 3 \<noteq> 0"
    "mem_bytes LittleEndian (to_rgba LittleEndian 9 8 7 128) ! 3 \<noteq> 255"
    by (simp_all add: mem_bytes_to_rgba)
  from AlphaComposeBackground_semi_transparent_bg [OF h] h show ?thesis by blast
qed

section \<open>The integer square root\<close>

lemma isqrt_bounds: "isqrt n * isqrt n \<le> n \<and> n < (isqrt n + 1) * (isqrt n + 1)"
proof (induction n rule: isqrt.induct)
  case (1 n)
  show ?case
  proof (cases "n = 0")
    case True
    then show ?thesis by (simp add: isqrt.simps)
  next
    case False
    define s where "s = isqrt (n div 4)"
    define q where "q = s * s"
    from 1 False have lo: "q \<le> n div 4" and hi: "n div 4 < (s + 1) * (s + 1)"
      by (simp_all add: s_def q_def)
    have hi': "n div 4 < q + 2 * s + 1"
      using hi by (simp add: q_def algebra_simps)
    have sq0: "(2 * s) * (2 * s) = 4 * q"
      by (simp add: q_def)
    have sq1: "(2 * s + 1) * (2 * s + 1) = 4 * q + 4 * s + 1"
      by (simp add: q_def algebra_simps)
    have sq2: "(2 * s + 1 + 1) * (2 * s + 1 + 1) = 4 * q + 8 * s + 4"
      by (simp add: q_def algebra_simps)
    have n_lo: "4 * q \<le> n" using lo by linarith
    have n_hi: "n < 4 * q + 8 * s + 4" using hi' by linarith
    have eq: "isqrt n = (if (2 * s + 1) * (2 * s + 1) \<le> n then 2 * s + 1 else 2 * s)"
      using False by (subst isqrt.simps) (simp add: s_def Let_def)
    show ?thesis
    proof (cases "(2 * s + 1) * (2 * s + 1) \<le> n")
      case True
      then show ?thesis
        using n_hi unfolding eq by (simp only: if_True sq2) 
    next
      case False
      then show ?thesis
        using n_lo unfolding eq by (simp only: if_False sq0) (simp add: sq1)
    qed
  qed
qed

lemma isqrt_unique:
  assumes "r * r \<le> n" "n < (r + 1) * (r + 1)"
  shows "isqrt n = r"
proof (rule ccontr)
  assume ne: "isqrt n \<noteq> r"
  let ?s = "isqrt n"
  from isqrt_bounds [of n] have s: "?s * ?s \<le> n" "n < (?s + 1) * (?s + 1)" by simp_all
  from ne consider "?s + 1 \<le> r" | "r + 1 \<le> ?s" by linarith
  then show False
  proof cases
    case 1
    have "(?s + 1) * (?s + 1) \<le> r * r" by (rule mult_le_mono [OF 1 1])
    with s(2) assms(1) show False by linarith
  next
    case 2
    have "(r + 1) * (r + 1) \<le> ?s * ?s" by (rule mult_le_mono [OF 2 2])
    with s(1) assms(2) show False by linarith
  qed
qed

lemma isqrt_square: "isqrt (r * r) = r"
  by (rule isqrt_unique) simp_all

lemma isqrt_mono: "m \<le> n \<Longrightarrow> isqrt m \<le> isqrt n"
proof (rule ccontr)
  assume mn: "m \<le> n" and "\<not> isqrt m \<le> isqrt n"
  then have le: "isqrt n + 1 \<le> isqrt m" by simp
  have "(isqrt n + 1) * (isqrt n + 1) \<le> isqrt m * isqrt m" by (rule mult_le_mono [OF le le])
  with isqrt_bounds [of n] isqrt_bounds [of m] mn show False by linarith
qed

text \<open>The integer square root is the truncation of the real square root.\<close>

lemma isqrt_floor_sqrt: "isqrt n = nat \<lfloor>sqrt (real n)\<rfloor>"
proof -
  let ?s = "isqrt n"
  from isqrt_bounds [of n] have s: "?s * ?s \<le> n" "n < (?s + 1) * (?s + 1)" by simp_all
  have "real (?s * ?s) \<le> real n"
    using s(1) by (simp only: of_nat_le_iff)
  then have "(real ?s)\<^sup>2 \<le> real n"
    by (simp add: power2_eq_square)
  then have lo: "real ?s \<le> sqrt (real n)" by (rule real_le_rsqrt)
  have "real n < real ((?s + 1) * (?s + 1))"
    using s(2) by (simp only: of_nat_less_iff)
  then have "real n < (real ?s + 1)\<^sup>2"
    by (simp add: power2_eq_square algebra_simps)
  then have hi: "sqrt (real n) < real ?s + 1"
    by (intro real_less_lsqrt) simp_all
  have "\<lfloor>sqrt (real n)\<rfloor> = int ?s"
    using lo hi by (intro floor_unique) simp_all
  then show ?thesis by simp
qed

section \<open>One channel of the blend\<close>

text \<open>
  The argument of the square root never exceeds \<open>255 * 255\<close> when the foreground
  channel and the alpha are bytes and the background channel is the square of a byte.
\<close>

lemma blend_arg_le:
  assumes "s \<le> 255" "b \<le> 65025" "a \<le> (255::nat)"
  shows "(s * s * a + b * (255 - a)) div 255 \<le> 65025"
proof -
  have "s * s \<le> 255 * 255" by (rule mult_le_mono [OF assms(1) assms(1)])
  then have 1: "s * s * a \<le> 65025 * a" by simp
  have 2: "b * (255 - a) \<le> 65025 * (255 - a)" using assms(2) by simp
  have "s * s * a + b * (255 - a) \<le> 65025 * a + 65025 * (255 - a)"
    using 1 2 by linarith
  also have "\<dots> = 65025 * 255" using assms(3) by simp
  finally show ?thesis by simp
qed

lemma blend_channel_nat:
  assumes "unat fgc \<le> 255" "unat bgc \<le> 65025" "unat alpha \<le> 255"
  shows "blend_channel fgc bgc alpha =
         of_nat (isqrt ((unat fgc * unat fgc * unat alpha + unat bgc * (255 - unat alpha)) div 255))"
proof -
  define s b a where "s = unat fgc" and "b = unat bgc" and "a = unat alpha"
  have sa: "s \<le> 255" "b \<le> 65025" "a \<le> 255"
    using assms by (simp_all add: s_def b_def a_def)
  have ss: "s * s \<le> 255 * 255" by (rule mult_le_mono [OF sa(1) sa(1)])
  have ssa: "s * s * a \<le> (255 * 255) * 255" by (rule mult_le_mono [OF ss sa(3)])
  have bb: "b * (255 - a) \<le> 65025 * 255" by (rule mult_le_mono [OF sa(2)]) simp
  have u1: "unat (fgc * fgc) = s * s"
    using ss by (simp add: unat_word_ariths s_def)
  have u2: "unat (fgc * fgc * alpha) = s * s * a"
    using ssa by (simp add: unat_word_ariths(2) [of "fgc * fgc" alpha] u1 a_def)
  have "alpha \<le> 0xFF" using sa(3) by (simp add: word_le_nat_alt a_def)
  then have u3: "unat (0xFF - alpha) = 255 - a"
    by (simp add: unat_sub a_def)
  have u4: "unat (bgc * (0xFF - alpha)) = b * (255 - a)"
    using bb by (simp add: unat_word_ariths(2) [of bgc "0xFF - alpha"] u3 b_def)
  have u5: "unat (fgc * fgc * alpha + bgc * (0xFF - alpha)) = s * s * a + b * (255 - a)"
    using ssa bb by (simp add: unat_word_ariths(1) [of "fgc * fgc * alpha"] u2 u4)
  have "unat ((fgc * fgc * alpha + bgc * (0xFF - alpha)) div 0xff) =
        (s * s * a + b * (255 - a)) div 255"
    by (simp add: unat_div u5)
  then show ?thesis
    unfolding blend_channel_def sqrtf_u32_def s_def b_def a_def by simp
qed

lemma isqrt_le_255: "n \<le> 65025 \<Longrightarrow> isqrt n \<le> 255"
  using isqrt_mono [of n 65025] isqrt_square [of 255] by simp

lemma ucast_of_nat_byte: "n \<le> 255 \<Longrightarrow> (ucast (of_nat n :: u32) :: u8) = of_nat n"
  by (simp add: unsigned_of_nat take_bit_nat_eq_self)

lemma unat_u8_le: "unat (x::u8) \<le> 255"
  using unsigned_less [of x, where 'a = nat] by simp

lemma unat_ucast_u8: "unat (ucast (x::u8) :: u32) = unat x"
  using unat_u8_le [of x] by (simp add: unsigned_ucast_eq take_bit_nat_eq_self)

lemma unat_byte_square: "unat ((ucast (d::u8) :: u32) * ucast d) = unat d * unat d"
proof -
  have "unat d * unat d \<le> 255 * 255"
    by (rule mult_le_mono [OF unat_u8_le unat_u8_le])
  then show ?thesis
    by (simp add: unat_word_ariths(2) [of "ucast d :: u32"] unat_ucast_u8)
qed

lemma blend_channel_bytes:
  "(ucast (blend_channel (ucast (s::u8)) (ucast (d::u8) * ucast d) (ucast (a::u8))) :: u8) =
   of_nat (spec_channel (unat s) (unat d) (unat a))"
proof -
  let ?N = "(unat s * unat s * unat a + unat d * unat d * (255 - unat a)) div 255"
  have dd: "unat d * unat d \<le> 65025"
    using mult_le_mono [OF unat_u8_le [of d] unat_u8_le [of d]] by simp
  have 1: "blend_channel (ucast s) (ucast d * ucast d) (ucast a) = of_nat (isqrt ?N)"
    using blend_channel_nat [of "ucast s" "ucast d * ucast d" "ucast a"] dd
      unat_u8_le [of s] unat_u8_le [of a]
    by (simp add: unat_ucast_u8 unat_byte_square)
  have "?N \<le> 65025"
    by (rule blend_arg_le [OF unat_u8_le dd unat_u8_le])
  then have "isqrt ?N \<le> 255" by (rule isqrt_le_255)
  then have "(ucast (of_nat (isqrt ?N) :: u32) :: u8) = of_nat (isqrt ?N)"
    by (rule ucast_of_nat_byte)
  then show ?thesis
    by (simp add: 1 spec_channel_def isqrt_floor_sqrt)
qed

lemma linear_bytes:
  "linear_color v =
     [ucast (ucast v :: u8) * ucast (ucast v :: u8),
      ucast (ucast (drop_bit 8 v) :: u8) * ucast (ucast (drop_bit 8 v) :: u8),
      ucast (ucast (drop_bit 16 v) :: u8) * ucast (ucast (drop_bit 16 v) :: u8)]"
  by (simp only: linear_color_def and_0xff)

text \<open>
  On a little-endian host \<open>AlphaBlend\<close> computes, for a pixel that is not opaque, each
  channel as the truncated square root of the weighted sum of the squared channels,
  divided by 255, and packs the three results with alpha 255.
\<close>

lemma AlphaBlend_LittleEndian:
  assumes c: "mem_bytes LittleEndian c = [r, g, b, a]" and a: "a \<noteq> 255"
    and bd: "mem_bytes LittleEndian backdrop = [dr, dg, db, da]"
  shows "AlphaBlend LittleEndian (linear_color (le32toh LittleEndian backdrop)) c =
         to_rgba LittleEndian
           (of_nat (spec_channel (unat r) (unat dr) (unat a)))
           (of_nat (spec_channel (unat g) (unat dg) (unat a)))
           (of_nat (spec_channel (unat b) (unat db) (unat a))) 255"
proof -
  from c have r: "ucast c = r" and g: "ucast (drop_bit 8 c) = g"
    and b: "ucast (drop_bit 16 c) = b" and a': "ucast (drop_bit 24 c) = a"
    by (simp_all add: mem_bytes_def)
  from bd have dr: "ucast backdrop = dr" and dg: "ucast (drop_bit 8 backdrop) = dg"
    and db: "ucast (drop_bit 16 backdrop) = db"
    by (simp_all add: mem_bytes_def)
  have alpha: "drop_bit 24 c = ucast a"
    using drop_bit_24_byte [of c] by (simp add: a')
  have ne: "(ucast a :: u32) \<noteq> 0xff"
    using a ucast_u8_eq_iff [of a 255] by simp
  have lin: "linear_color backdrop = [ucast dr * ucast dr, ucast dg * ucast dg, ucast db * ucast db]"
    by (simp add: linear_bytes dr dg db)
  show ?thesis
    unfolding AlphaBlend_def
    by (simp add: le32toh_def Let_def alpha ne lin and_0xff r g b blend_channel_bytes)
qed

lemma AlphaBlend_opaque_LittleEndian:
  assumes "mem_bytes LittleEndian c ! 3 = 255"
  shows "AlphaBlend LittleEndian bg c = c"
proof -
  from assms have "ucast (drop_bit 24 c) = (255::u8)" by (simp add: mem_bytes_def)
  then have "drop_bit 24 c = 0xff"
    using drop_bit_24_byte [of c] by simp
  then show ?thesis by (simp add: AlphaBlend_def)
qed

section \<open>The loops of the compositor\<close>

lemma fold_blend_step:
  assumes "pos + n \<le> length px"
  shows "fold (blend_step e ch y) [0..<n] (px, pos) =
         (map (\<lambda>i. if pos \<le> i \<and> i < pos + n
                     then AlphaBlend e (ch ! ((i - pos + y) mod 2)) (px ! i)
                     else px ! i) [0..<length px],
          pos + n)"
  using assms
proof (induction n)
  case 0
  have "px = map (\<lambda>i. if pos \<le> i \<and> i < pos + 0
                     then AlphaBlend e (ch ! ((i - pos + y) mod 2)) (px ! i)
                     else px ! i) [0..<length px]"
    by (intro nth_equalityI) auto
  then show ?case by simp
next
  case (Suc n)
  let ?f = "\<lambda>m i. if pos \<le> i \<and> i < pos + m
                   then AlphaBlend e (ch ! ((i - pos + y) mod 2)) (px ! i) else px ! i"
  from Suc have IH: "fold (blend_step e ch y) [0..<n] (px, pos) =
      (map (?f n) [0..<length px], pos + n)" and len: "pos + n < length px"
    by simp_all
  have upd: "(map (?f n) [0..<length px])
          [pos + n := AlphaBlend e (ch ! ((n + y) mod 2)) (map (?f n) [0..<length px] ! (pos + n))] =
        map (?f (Suc n)) [0..<length px]"
    using len by (intro nth_equalityI) (auto simp add: nth_list_update less_Suc_eq)
  have "fold (blend_step e ch y) [0..<Suc n] (px, pos) =
      blend_step e ch y n (map (?f n) [0..<length px], pos + n)"
    by (simp add: IH)
  also have "\<dots> = (map (?f (Suc n)) [0..<length px], pos + Suc n)"
    using upd by (simp add: blend_step_def)
  finally show ?case .
qed

lemma row_index:
  assumes "y * w \<le> (i::nat)" "i < y * w + w"
  shows "i div w = y" and "i mod w = i - y * w"
proof -
  from assms have w: "0 < w" by (cases w) simp_all
  define k where "k = i - y * w"
  from assms have i: "i = k + y * w" and k: "k < w" by (simp_all add: k_def)
  show "i div w = y" using w k by (simp add: i)
  show "i mod w = i - y * w" using k by (simp add: i)
qed

lemma fold_rows:
  assumes "length px = w * h" "n \<le> h"
  shows "fold (\<lambda>y. fold (blend_step e ch y) [0..<w]) [0..<n] (px, 0) =
         (map (\<lambda>i. if i < n * w
                     then AlphaBlend e (ch ! ((i mod w + i div w) mod 2)) (px ! i)
                     else px ! i) [0..<length px],
          n * w)"
  using assms(2)
proof (induction n)
  case 0
  then show ?case by (simp add: map_nth)
next
  case (Suc n)
  let ?g = "\<lambda>m i. if i < m * w
                   then AlphaBlend e (ch ! ((i mod w + i div w) mod 2)) (px ! i) else px ! i"
  let ?px = "map (?g n) [0..<length px]"
  from Suc have IH: "fold (\<lambda>y. fold (blend_step e ch y) [0..<w]) [0..<n] (px, 0) = (?px, n * w)"
    and n: "n < h" by simp_all
  have "n * w + w = Suc n * w" by simp
  also have "\<dots> \<le> h * w" using n by (intro mult_le_mono1) simp
  finally have fits: "n * w + w \<le> length ?px" by (simp add: assms(1) mult.commute)
  have row: "fold (blend_step e ch n) [0..<w] (?px, n * w) =
      (map (\<lambda>i. if n * w \<le> i \<and> i < n * w + w
                  then AlphaBlend e (ch ! ((i - n * w + n) mod 2)) (?px ! i)
                  else ?px ! i) [0..<length ?px], n * w + w)"
    by (rule fold_blend_step [OF fits])
  have "map (\<lambda>i. if n * w \<le> i \<and> i < n * w + w
                  then AlphaBlend e (ch ! ((i - n * w + n) mod 2)) (?px ! i)
                  else ?px ! i) [0..<length ?px] = map (?g (Suc n)) [0..<length px]"
  proof (rule nth_equalityI)
    show "length (map (\<lambda>i. if n * w \<le> i \<and> i < n * w + w
                  then AlphaBlend e (ch ! ((i - n * w + n) mod 2)) (?px ! i)
                  else ?px ! i) [0..<length ?px]) = length (map (?g (Suc n)) [0..<length px])"
      by simp
  next
    fix i
    assume "i < length (map (\<lambda>i. if n * w \<le> i \<and> i < n * w + w
                  then AlphaBlend e (ch ! ((i - n * w + n) mod 2)) (?px ! i)
                  else ?px ! i) [0..<length ?px])"
    then have i: "i < length px" by simp
    show "map (\<lambda>i. if n * w \<le> i \<and> i < n * w + w
                  then AlphaBlend e (ch ! ((i - n * w + n) mod 2)) (?px ! i)
                  else ?px ! i) [0..<length ?px] ! i = map (?g (Suc n)) [0..<length px] ! i"
    proof (cases "n * w \<le> i \<and> i < n * w + w")
      case True
      then have "i div w = n" "i mod w = i - n * w"
        using row_index [of n w i] by simp_all
      with True i show ?thesis by simp
    next
      case False
      with i show ?thesis by auto
    qed
  qed
  then have row': "fold (blend_step e ch n) [0..<w] (?px, n * w) =
      (map (?g (Suc n)) [0..<length px], Suc n * w)"
    using row by simp
  have "fold (\<lambda>y. fold (blend_step e ch y) [0..<w]) [0..<Suc n] (px, 0) =
      fold (blend_step e ch n) [0..<w] (?px, n * w)"
    by (simp add: IH)
  also note row'
  finally show ?case .
qed

lemma blend_rows_map:
  assumes "length px = w * h"
  shows "blend_rows e ch w h px =
         map (\<lambda>i. AlphaBlend e (ch ! ((i mod w + i div w) mod 2)) (px ! i)) [0..<length px]"
  using fold_rows [OF assms order_refl, of e ch]
  by (simp add: blend_rows_def assms mult.commute)

section \<open>The compositor on the whole store\<close>

lemma pack_unpack:
  "(ucast (ucast (v::u32) :: u8) :: u32) OR push_bit 8 (ucast (ucast (drop_bit 8 v) :: u8)) OR
   push_bit 16 (ucast (ucast (drop_bit 16 v) :: u8)) OR
   push_bit 24 (ucast (ucast (drop_bit 24 v) :: u8)) = v"
proof (rule bit_word_eqI)
  fix n
  assume n: "n < LENGTH(32)"
  consider "n < 8" | "8 \<le> n" "n < 16" | "16 \<le> n" "n < 24" | "24 \<le> n" "n < 32"
    using n by fastforce
  then show "bit ((ucast (ucast v :: u8) :: u32) OR push_bit 8 (ucast (ucast (drop_bit 8 v) :: u8)) OR
        push_bit 16 (ucast (ucast (drop_bit 16 v) :: u8)) OR
        push_bit 24 (ucast (ucast (drop_bit 24 v) :: u8))) n \<longleftrightarrow> bit v n"
    by cases (auto simp add: bit_simps)
qed

lemma to_rgba_of_mem_bytes:
  assumes "mem_bytes e v = [r, g, b, a]"
  shows "to_rgba e r g b a = v"
proof (cases e)
  case LittleEndian
  with assms show ?thesis
    using pack_unpack [of v] by (auto simp add: mem_bytes_def to_rgba_def htole32_def)
next
  case BigEndian
  with assms have "r = ucast (drop_bit 24 v)" "g = ucast (drop_bit 16 v)"
    "b = ucast (drop_bit 8 v)" "a = ucast v"
    by (simp_all add: mem_bytes_def)
  note bytes = this
  have "to_rgba BigEndian r g b a =
      bswap32 ((ucast r :: u32) OR push_bit 8 (ucast g) OR push_bit 16 (ucast b) OR
        push_bit 24 (ucast a))"
    by (simp add: to_rgba_def htole32_def)
  also have "\<dots> = (ucast a :: u32) OR push_bit 8 (ucast b) OR push_bit 16 (ucast g) OR
      push_bit 24 (ucast r)"
    by (rule bswap32_pack)
  also have "\<dots> = v"
    unfolding bytes by (rule pack_unpack)
  finally show ?thesis by (simp add: BigEndian)
qed

lemma nth_pair_mod2: "[a, b] ! (k mod 2) = (if even (k::nat) then a else b)"
proof (cases "even k")
  case True
  then show ?thesis by simp
next
  case False
  then have "k mod 2 = 1" by (simp add: odd_iff_mod_2_eq_one)
  with False show ?thesis by simp
qed

lemma AlphaComposeBackground_opaque_bg:
  assumes ok: "store_ok fb" and bg: "mem_bytes e bgcolor ! 3 = 255"
  shows "AlphaComposeBackground e bgcolor pattern_col fb =
         Inr (fb\<lparr>pixels :=
           map (\<lambda>i. AlphaBlend e
                  (linear_color (le32toh e (chosen_backdrop e bgcolor pattern_col
                     (int (i mod nat (width fb))) (int (i div nat (width fb))))))
                  (pixels fb ! i))
             [0..<length (pixels fb)]\<rparr>)"
proof -
  let ?w = "nat (width fb)" and ?h = "nat (height fb)"
  have alpha: "drop_bit 24 (le32toh e bgcolor) = 0xff"
    by (simp add: drop_bit_24_le32toh bg)
  have len: "length (pixels fb) = ?w * ?h"
    using ok by (simp add: store_ok_def nat_mult_distrib)
  have pat: "drop_bit 24 (le32toh e pattern_col) = 0xff \<longleftrightarrow> mem_bytes e pattern_col ! 3 = 255"
    using ucast_u8_eq_iff [of "mem_bytes e pattern_col ! 3" 255]
    by (simp add: drop_bit_24_le32toh)
  have par: "odd (int a + int b) \<longleftrightarrow> odd (a + b)" for a b :: nat
    by simp
  show ?thesis
  proof (cases "mem_bytes e pattern_col ! 3 = 255")
    case True
    then show ?thesis
      unfolding AlphaComposeBackground_def Let_def
      by (simp add: alpha pat blend_rows_map [OF len] nth_pair_mod2 chosen_backdrop_def par
          del: of_nat_add)
  next
    case False
    then show ?thesis
      unfolding AlphaComposeBackground_def Let_def
      by (simp add: alpha pat blend_rows_map [OF len] nth_pair_mod2 chosen_backdrop_def)
  qed
qed

text \<open>The compositor keeps the store invariant.\<close>

lemma store_ok_AlphaComposeBackground:
  assumes ok: "store_ok fb" and res: "AlphaComposeBackground e bgcolor pattern_col fb = Inr fb'"
  shows "store_ok fb'"
proof (cases "mem_bytes e bgcolor ! 3 = 255")
  case True
  from res show ?thesis
    unfolding AlphaComposeBackground_opaque_bg [OF ok True]
    using ok by (auto simp add: store_ok_def)
next
  case False
  then have "drop_bit 24 (le32toh e bgcolor) \<noteq> 0xff"
    using ucast_u8_eq_iff [of "mem_bytes e bgcolor ! 3" 255]
    by (simp add: drop_bit_24_le32toh)
  with res have "fb' = fb"
    by (simp add: AlphaComposeBackground_def Let_def split: if_splits)
  with ok show ?thesis by simp
qed

lemma pixel_index:
  assumes "0 \<le> x" "x < w" "0 \<le> y" "(w::int) > 0"
  shows "nat (w * y + x) mod nat w = nat x" and "nat (w * y + x) div nat w = nat y"
proof -
  have eq: "nat (w * y + x) = nat x + nat y * nat w"
    using assms by (simp add: nat_add_distrib nat_mult_distrib mult.commute)
  have lt: "nat x < nat w" using assms by simp
  show "nat (w * y + x) mod nat w = nat x" using lt by (simp add: eq)
  show "nat (w * y + x) div nat w = nat y" using lt by (simp add: eq)
qed

text \<open>
  With an opaque background, the pixel at \<open>(x, y)\<close> after the call is \<open>AlphaBlend\<close> of
  the pixel before it against the chosen backdrop: the pattern where the pattern is
  opaque and \<open>x + y\<close> is odd, the background otherwise. This holds on every host.
\<close>

lemma AlphaComposeBackground_at:
  assumes ok: "store_ok fb" and bg: "mem_bytes e bgcolor ! 3 = 255"
    and xy: "0 \<le> x" "x < width fb" "0 \<le> y" "y < height fb"
    and res: "AlphaComposeBackground e bgcolor pattern_col fb = Inr fb'"
  shows "at_xy x y fb' =
         Inr (AlphaBlend e (linear_color (le32toh e (chosen_backdrop e bgcolor pattern_col x y)))
                (pixels fb ! nat (width fb * y + x)))"
proof -
  have i: "nat (width fb * y + x) < length (pixels fb)"
    by (rule index_in_store [OF ok xy])
  have w: "width fb > 0" using xy by simp
  from res have fb': "fb' = fb\<lparr>pixels :=
           map (\<lambda>i. AlphaBlend e
                  (linear_color (le32toh e (chosen_backdrop e bgcolor pattern_col
                     (int (i mod nat (width fb))) (int (i div nat (width fb))))))
                  (pixels fb ! i))
             [0..<length (pixels fb)]\<rparr>"
    by (simp add: AlphaComposeBackground_opaque_bg [OF ok bg])
  show ?thesis
    using xy i by (simp add: fb' at_xy_def pixel_index [OF xy(1,2,3) w])
qed

section \<open>The compositor on a little-endian host\<close>

lemma spec_channel_transparent: "spec_channel s d 0 = d"
proof -
  have "isqrt (d * d) = nat \<lfloor>sqrt (real (d * d))\<rfloor>" by (rule isqrt_floor_sqrt)
  then show ?thesis by (simp add: spec_channel_def isqrt_square)
qed

text \<open>
  On a little-endian host, with an opaque background, a pixel that is opaque stays as it
  is, and every other pixel gets, in each channel, the truncated square root of
  \<open>(src\<^sup>2 * a + backdrop\<^sup>2 * (255 - a)) div 255\<close>, with alpha 255.
\<close>

lemma AlphaComposeBackground_LittleEndian_pixel:
  assumes ok: "store_ok fb" and bg: "mem_bytes LittleEndian bgcolor ! 3 = 255"
    and xy: "0 \<le> x" "x < width fb" "0 \<le> y" "y < height fb"
    and res: "AlphaComposeBackground LittleEndian bgcolor pattern_col fb = Inr fb'"
    and c: "mem_bytes LittleEndian (pixels fb ! nat (width fb * y + x)) = [r, g, b, a]"
    and d: "mem_bytes LittleEndian (chosen_backdrop LittleEndian bgcolor pattern_col x y) =
            [dr, dg, db, da]"
  shows "at_xy x y fb' =
         Inr (if a = 255 then pixels fb ! nat (width fb * y + x)
              else to_rgba LittleEndian
                     (of_nat (spec_channel (unat r) (unat dr) (unat a)))
                     (of_nat (spec_channel (unat g) (unat dg) (unat a)))
                     (of_nat (spec_channel (unat b) (unat db) (unat a))) 255)"
proof (cases "a = 255")
  case True
  with c have "mem_bytes LittleEndian (pixels fb ! nat (width fb * y + x)) ! 3 = 255" by simp
  then show ?thesis
    using True by (simp add: AlphaComposeBackground_at [OF ok bg xy res]
        AlphaBlend_opaque_LittleEndian)
next
  case False
  then show ?thesis
    by (simp add: AlphaComposeBackground_at [OF ok bg xy res]
        AlphaBlend_LittleEndian [OF c False d])
qed

text \<open>
  On a little-endian host, a pixel with alpha 0 becomes the chosen backdrop pixel, whose
  alpha is 255.
\<close>

lemma AlphaComposeBackground_LittleEndian_transparent_pixel:
  assumes ok: "store_ok fb" and bg: "mem_bytes LittleEndian bgcolor ! 3 = 255"
    and xy: "0 \<le> x" "x < width fb" "0 \<le> y" "y < height fb"
    and res: "AlphaComposeBackground LittleEndian bgcolor pattern_col fb = Inr fb'"
    and c: "mem_bytes LittleEndian (pixels fb ! nat (width fb * y + x)) ! 3 = 0"
  shows "at_xy x y fb' = Inr (chosen_backdrop LittleEndian bgcolor pattern_col x y)"
    and "mem_bytes LittleEndian (chosen_backdrop LittleEndian bgcolor pattern_col x y) ! 3 = 255"
proof -
  let ?c = "pixels fb ! nat (width fb * y + x)"
  let ?d = "chosen_backdrop LittleEndian bgcolor pattern_col x y"
  show da: "mem_bytes LittleEndian ?d ! 3 = 255"
    using bg by (simp add: chosen_backdrop_def)
  obtain r g b a where cb: "mem_bytes LittleEndian ?c = [r, g, b, a]"
    by (simp add: mem_bytes_def)
  with c have a: "a = 0" by simp
  obtain dr dg db da where db: "mem_bytes LittleEndian ?d = [dr, dg, db, da]"
    by (simp add: mem_bytes_def)
  with da have "da = 255" by simp
  with db have "to_rgba LittleEndian dr dg db 255 = ?d"
    by (simp add: to_rgba_of_mem_bytes)
  then show "at_xy x y fb' = Inr ?d"
    using AlphaComposeBackground_LittleEndian_pixel [OF ok bg xy res cb db] a
    by (simp add: spec_channel_transparent)
qed

section \<open>The compositor on a big-endian host\<close>

lemma store_1x1: "SetPixel 0 0 c (Framebuffer 1 1) = \<lparr>width = 1, height = 1, pixels = [c]\<rparr>"
  by (simp add: SetPixel_def Framebuffer_def Clear_def)

lemma blend_rows_1x1: "blend_rows e ch (Suc 0) (Suc 0) [c] = [AlphaBlend e (ch ! 0) c]"
  by (simp add: blend_rows_def blend_step_def)

text \<open>
  C1 on a big-endian host. The store holds one opaque pixel with the bytes
  10, 20, 30, 255; the background is opaque black, the pattern transparent.
  \<open>AlphaBlend\<close> takes the alpha from \<open>c >> 24\<close>, which is the red byte 10 on this host,
  so the opaque pixel is blended and becomes 1, 3, 5, 255 instead of staying as it is.
\<close>

theorem AlphaComposeBackground_BigEndian_opaque_pixel:
  "mem_bytes BigEndian (to_rgba BigEndian 10 20 30 255) = [10, 20, 30, 255] \<and>
   AlphaComposeBackground BigEndian (to_rgba BigEndian 0 0 0 255) (to_rgba BigEndian 0 0 0 0)
     (SetPixel 0 0 (to_rgba BigEndian 10 20 30 255) (Framebuffer 1 1)) =
   Inr (SetPixel 0 0 (to_rgba BigEndian 1 3 5 255) (Framebuffer 1 1)) \<and>
   to_rgba BigEndian 1 3 5 255 \<noteq> to_rgba BigEndian 10 20 30 255"
proof -
  have bgc: "to_rgba BigEndian 0 0 0 255 = 0xFF" by code_simp
  have pat: "to_rgba BigEndian 0 0 0 0 = 0" by code_simp
  have src: "to_rgba BigEndian 10 20 30 255 = 0x0A141EFF" by code_simp
  have dst: "to_rgba BigEndian 1 3 5 255 = 0x010305FF" by code_simp
  have b1: "le32toh BigEndian 0xFF = 0xFF000000" by code_simp
  have b2: "le32toh BigEndian 0 = 0" by code_simp
  have b3: "drop_bit 24 (0xFF000000 :: u32) = 0xff" by code_simp
  have lin: "linear_color 0xFF000000 = [0, 0, 0]" by code_simp
  have blend: "AlphaBlend BigEndian [0, 0, 0] 0x0A141EFF = 0x010305FF" by code_simp
  have "AlphaComposeBackground BigEndian 0xFF 0 \<lparr>width = 1, height = 1, pixels = [0x0A141EFF]\<rparr> =
        Inr \<lparr>width = 1, height = 1, pixels = [0x010305FF]\<rparr>"
    by (simp add: AlphaComposeBackground_def Let_def b1 b2 b3 lin blend_rows_1x1 blend)
  then have "AlphaComposeBackground BigEndian (to_rgba BigEndian 0 0 0 255) (to_rgba BigEndian 0 0 0 0)
     (SetPixel 0 0 (to_rgba BigEndian 10 20 30 255) (Framebuffer 1 1)) =
   Inr (SetPixel 0 0 (to_rgba BigEndian 1 3 5 255) (Framebuffer 1 1))"
    by (simp add: store_1x1 bgc pat src dst)
  moreover have "to_rgba BigEndian 1 3 5 255 \<noteq> to_rgba BigEndian 10 20 30 255"
    by (simp add: src dst)
  ultimately show ?thesis
    by (simp only: mem_bytes_to_rgba simp_thms)
qed

text \<open>
  C2 on a big-endian host. The store holds one transparent pixel with the bytes
  255, 7, 9, 0; the background is opaque with the bytes 1, 2, 3, 255, the pattern
  transparent. \<open>AlphaBlend\<close> reads 255 from \<open>c >> 24\<close> and returns the pixel as it is: it
  stays transparent and does not become the background.
\<close>

theorem AlphaComposeBackground_BigEndian_transparent_pixel:
  "mem_bytes BigEndian (to_rgba BigEndian 255 7 9 0) = [255, 7, 9, 0] \<and>
   mem_bytes BigEndian (to_rgba BigEndian 1 2 3 255) = [1, 2, 3, 255] \<and>
   AlphaComposeBackground BigEndian (to_rgba BigEndian 1 2 3 255) (to_rgba BigEndian 0 0 0 0)
     (SetPixel 0 0 (to_rgba BigEndian 255 7 9 0) (Framebuffer 1 1)) =
   Inr (SetPixel 0 0 (to_rgba BigEndian 255 7 9 0) (Framebuffer 1 1)) \<and>
   to_rgba BigEndian 255 7 9 0 \<noteq> to_rgba BigEndian 1 2 3 255"
proof -
  have bgc: "to_rgba BigEndian 1 2 3 255 = 0x010203FF" by code_simp
  have pat: "to_rgba BigEndian 0 0 0 0 = 0" by code_simp
  have src: "to_rgba BigEndian 255 7 9 0 = 0xFF070900" by code_simp
  have b1: "le32toh BigEndian 0x010203FF = 0xFF030201" by code_simp
  have b2: "le32toh BigEndian 0 = 0" by code_simp
  have b3: "drop_bit 24 (0xFF030201 :: u32) = 0xff" by code_simp
  have blend: "AlphaBlend BigEndian bg 0xFF070900 = 0xFF070900" for bg
  proof -
    have "drop_bit 24 (0xFF070900 :: u32) = 0xff" by code_simp
    then show ?thesis by (simp add: AlphaBlend_def)
  qed
  have "AlphaComposeBackground BigEndian 0x010203FF 0 \<lparr>width = 1, height = 1, pixels = [0xFF070900]\<rparr> =
        Inr \<lparr>width = 1, height = 1, pixels = [0xFF070900]\<rparr>"
    by (simp add: AlphaComposeBackground_def Let_def b1 b2 b3 blend_rows_1x1 blend)
  then have "AlphaComposeBackground BigEndian (to_rgba BigEndian 1 2 3 255) (to_rgba BigEndian 0 0 0 0)
     (SetPixel 0 0 (to_rgba BigEndian 255 7 9 0) (Framebuffer 1 1)) =
   Inr (SetPixel 0 0 (to_rgba BigEndian 255 7 9 0) (Framebuffer 1 1))"
    by (simp add: store_1x1 bgc pat src)
  moreover have "to_rgba BigEndian 255 7 9 0 \<noteq> to_rgba BigEndian 1 2 3 255"
    by (simp add: src bgc)
  ultimately show ?thesis
    by (simp only: mem_bytes_to_rgba simp_thms)
qed

section \<open>Named colors\<close>

lemmas scan_defs = sscanf_def fmt_hex_def fmt_rgb_dec_def fmt_rgb_hex_def scan_conv_def
  scan_sign_def scan_leading_zero_def strtol_value_def strtoul_value_def digit_val_def xdigit_val_def isspace_def on_input_failure_def EOF_def

lemma char_of_eq_iff_nat: "char_of (n::nat) = c \<longleftrightarrow> n mod 256 = of_char c"
  by (simp add: char_of_eq_iff take_bit_eq_mod)

lemma of_char_nat_eq_iff: "(of_char a :: nat) = of_char b \<longleftrightarrow> a = b"
  by (metis char_of_char)

lemma tolower_alpha: "isalpha c \<Longrightarrow> isalpha (tolower c)"
  by (auto simp add: isalpha_def tolower_def)

lemma tolower_not_alpha: "\<not> isalpha c \<Longrightarrow> tolower c = c"
  by (auto simp add: isalpha_def tolower_def)

lemma alpha_not_nul: "isalpha c \<Longrightarrow> (of_char c :: nat) \<noteq> 0"
  by (auto simp add: isalpha_def)

lemma strcasecmp_empty_alpha:
  assumes "name \<noteq> []" "list_all isalpha name"
  shows "strcasecmp [] name \<noteq> 0"
proof (cases name)
  case Nil
  with assms show ?thesis by simp
next
  case (Cons b bs)
  with assms have "isalpha (tolower b)" by (simp add: tolower_alpha)
  then have "(of_char (tolower b) :: nat) \<noteq> 0" by (rule alpha_not_nul)
  with Cons show ?thesis by simp
qed

lemma strcasecmp_not_alpha:
  assumes "list_all isalpha name" "list_all isalpha p" "\<not> isalpha c" "(of_char c :: nat) \<noteq> 0"
  shows "strcasecmp (p @ c # rest) name \<noteq> 0"
  using assms(1,2)
proof (induction p arbitrary: name)
  case Nil
  show ?case
  proof (cases name)
    case Nil
    with assms(3,4) show ?thesis by (simp add: tolower_not_alpha)
  next
    case (Cons b bs)
    with Nil.prems have "isalpha (tolower b)" by (simp add: tolower_alpha)
    with assms(3) have "tolower c \<noteq> tolower b"
      by (auto simp add: tolower_not_alpha)
    then have "(of_char (tolower c) :: nat) \<noteq> of_char (tolower b)"
      by (simp add: of_char_nat_eq_iff)
    with Cons show ?thesis by simp
  qed
next
  case (Cons a p)
  show ?case
  proof (cases name)
    case Nil
    from Cons.prems have "isalpha (tolower a)" by (simp add: tolower_alpha)
    then have "(of_char (tolower a) :: nat) \<noteq> 0" by (rule alpha_not_nul)
    with Nil show ?thesis by simp
  next
    case (Cons b bs)
    show ?thesis
    proof (cases "tolower a = tolower b")
      case True
      with Cons Cons.IH [of bs] Cons.prems show ?thesis by simp
    next
      case False
      then have "(of_char (tolower a) :: nat) \<noteq> of_char (tolower b)"
        by (simp add: of_char_nat_eq_iff)
      with False Cons show ?thesis by simp
    qed
  qed
qed

lemma translate_named_unchanged:
  assumes "names_alphabetic html_colors" "not_a_name s"
  shows "translate_named html_colors s = s"
  using assms(1)
proof (induction html_colors)
  case Nil
  show ?case by simp
next
  case (Cons entry cs)
  obtain name translation where entry: "entry = (name, translation)" by (cases entry)
  from Cons.prems entry have name: "name \<noteq> []" "list_all isalpha name"
    and rest: "names_alphabetic cs"
    by (simp_all add: names_alphabetic_def)
  have "strcasecmp s name \<noteq> 0"
  proof (cases "dropWhile isalpha s")
    case Nil
    with assms(2) have "s = []" by (simp add: not_a_name_def)
    with name show ?thesis by (simp add: strcasecmp_empty_alpha)
  next
    case (Cons c rest)
    then have s: "s = takeWhile isalpha s @ c # rest"
      by (metis takeWhile_dropWhile_id)
    have c: "\<not> isalpha c"
      using Cons by (metis hd_dropWhile list.sel(1) list.distinct(1))
    have nz: "(of_char c :: nat) \<noteq> 0"
      using assms(2) Cons by (simp add: not_a_name_def)
    have p: "list_all isalpha (takeWhile isalpha s)"
      by (simp add: list_all_iff) (meson set_takeWhileD)
    show ?thesis
      using strcasecmp_not_alpha [OF name(2) p c nz, of rest] s by simp
  qed
  with Cons.IH [OF rest] entry show ?case by simp
qed

section \<open>Parsing\<close>





lemma scan_empty: "scan_first [fmt_hex, fmt_rgb_dec, fmt_rgb_hex] '''' = None"
  by (simp add: scan_defs)


text \<open>
  The conversions on overflow and on a bare \<open>0x\<close>: a decimal component beyond
  \<open>LONG_MAX\<close> is clamped, one beyond \<open>UINT_MAX\<close> keeps its low 32 bits, and a \<open>0x\<close>
  without a digit is the number 0.
\<close>

lemma scan_overflow_examples:
  "scan_first [fmt_hex, fmt_rgb_dec, fmt_rgb_hex] ''rgb(18446744073709551916, 0, 0)'' =
     Some [0xFFFFFFFF, 0, 0]"
  "scan_first [fmt_hex, fmt_rgb_dec, fmt_rgb_hex] ''rgb(4294967596, 0, 0)'' = Some [300, 0, 0]"
  "scan_first [fmt_hex, fmt_rgb_dec, fmt_rgb_hex] ''rgb(0x1ffffffff, 0x0, 0x0)'' =
     Some [0xFFFFFFFF, 0, 0]"
  "scan_first [fmt_hex, fmt_rgb_dec, fmt_rgb_hex] ''#0x12ab'' = Some [0, 0x12, 0xab]"
  by (simp_all add: scan_defs)

section \<open>Decimal components\<close>

lemma digit_not_space: "digit_val c \<noteq> None \<Longrightarrow> \<not> isspace c"
  by (auto simp add: digit_val_def isspace_def split: if_splits)

lemma digit_not_sign: "digit_val c \<noteq> None \<Longrightarrow> c \<noteq> CHR ''-'' \<and> c \<noteq> CHR ''+''"
  by (auto simp add: digit_val_def split: if_splits)

lemma digit_zero: "digit_val (CHR ''0'') = Some 0"
  by (simp add: digit_val_def)

lemma scan_digits_numeral:
  assumes "list_all (\<lambda>c. digit_val c \<noteq> None) ds"
  shows "scan_digits digit_val 10 None acc cnt (ds @ rest) =
         scan_digits digit_val 10 None
           (foldl (\<lambda>a c. a * 10 + (case digit_val c of Some d \<Rightarrow> d | None \<Rightarrow> 0)) acc ds)
           (cnt + length ds) rest"
  using assms
proof (induction ds arbitrary: acc cnt)
  case Nil
  show ?case by simp
next
  case (Cons c ds)
  then obtain d where d: "digit_val c = Some d" by auto
  from Cons.prems have "list_all (\<lambda>c. digit_val c \<noteq> None) ds" by simp
  from Cons.IH [OF this, of "acc * 10 + d" "cnt + 1"] d show ?case by simp
qed

lemma scan_digits_stop:
  "no_digit_ahead rest \<Longrightarrow> scan_digits digit_val 10 w acc cnt rest = (acc, cnt, rest)"
  by (cases rest) (simp_all add: no_digit_ahead_def)

lemma dropWhile_isspace_numeral:
  assumes "list_all isspace sp" "is_numeral ds"
  shows "dropWhile isspace (sp @ ds @ rest) = ds @ rest"
proof -
  from assms(2) obtain c cs where ds: "ds = c # cs" and c: "digit_val c \<noteq> None"
    by (cases ds) (auto simp add: is_numeral_def)
  have "dropWhile isspace (sp @ ds @ rest) = dropWhile isspace (ds @ rest)"
    using assms(1) by (intro dropWhile_append2) (simp add: list_all_iff)
  then show ?thesis
    using digit_not_space [OF c] by (simp add: ds)
qed

text \<open>
  A numeral, after any white space and before a character that is no digit, is
  converted to the low 32 bits of its value, saturated at \<open>LONG_MAX\<close>.
\<close>

lemma scan_conv_numeral:
  assumes sp: "list_all isspace sp" and ds: "is_numeral ds" and rest: "no_digit_ahead rest"
  shows "scan_conv ConvD None (sp @ ds @ rest) =
         Item (ucast (strtol_value False (numeral_value ds))) rest"
proof -
  from ds obtain c cs where dc: "ds = c # cs" and c: "digit_val c \<noteq> None"
    and cs: "list_all (\<lambda>c. digit_val c \<noteq> None) cs"
    by (cases ds) (auto simp add: is_numeral_def)
  have skip: "dropWhile isspace (sp @ ds @ rest) = c # cs @ rest"
    using dropWhile_isspace_numeral [OF sp ds, of rest] by (simp add: dc)
  have sign: "scan_sign None (c # cs @ rest) = (False, None, c # cs @ rest)"
    using digit_not_sign [OF c] by (simp add: scan_sign_def)
  have all: "list_all (\<lambda>c. digit_val c \<noteq> None) (c # cs)"
    using c cs by simp
  show ?thesis
  proof (cases "c = CHR ''0''")
    case True
    have zero: "scan_leading_zero ConvD None (c # cs @ rest) = (True, None, cs @ rest)"
      using True by (cases "cs @ rest") (simp_all add: scan_leading_zero_def)
    have digits: "scan_digits digit_val 10 None 0 0 (cs @ rest) =
        (numeral_value ds, length cs, rest)"
      using True
      by (simp add: scan_digits_numeral [OF cs] scan_digits_stop [OF rest]
          numeral_value_def dc digit_zero)
    show ?thesis
      unfolding scan_conv_def skip Let_def
      by (simp add: sign zero digits)
  next
    case False
    have zero: "scan_leading_zero ConvD None (c # cs @ rest) = (False, None, c # cs @ rest)"
      using False by (simp add: scan_leading_zero_def)
    have digits: "scan_digits digit_val 10 None 0 0 ((c # cs) @ rest) =
        (numeral_value ds, length (c # cs), rest)"
      by (simp only: scan_digits_numeral [OF all] scan_digits_stop [OF rest])
        (simp add: numeral_value_def dc)
    show ?thesis
      unfolding scan_conv_def skip Let_def
      using digits by (simp add: sign zero)
  qed
qed

lemma ucast_strtol_byte:
  "(ucast (ucast (strtol_value False n) :: u32) :: u8) = component_byte n"
proof (cases "n \<le> LONG_MAX")
  case True
  then have "n < 2 ^ 64" by (simp add: LONG_MAX_def)
  then have "(ucast (ucast (of_nat n :: 64 word) :: u32) :: u8) = of_nat n"
    by (intro bit_word_eqI) (auto simp add: bit_simps)
  with True show ?thesis
    by (simp add: strtol_value_def component_byte_def LONG_MAX_def)
next
  case False
  then show ?thesis
    by (simp add: strtol_value_def component_byte_def LONG_MAX_def)
qed

lemma component_byte_wraps: "n \<le> LONG_MAX \<Longrightarrow> unat (component_byte n) = n mod 256"
  by (simp add: component_byte_def unat_of_nat)

lemma component_byte_saturates: "LONG_MAX < n \<Longrightarrow> component_byte n = 255"
  by (simp add: component_byte_def)

lemma sscanf_rgb_input:
  assumes "is_numeral r" "is_numeral g" "is_numeral b"
    and "list_all isspace s1" "list_all isspace s2" "list_all isspace s3"
  shows "sscanf (rgb_input s1 r s2 g s3 b) fmt_rgb_dec =
         (3, [ucast (strtol_value False (numeral_value r)),
              ucast (strtol_value False (numeral_value g)),
              ucast (strtol_value False (numeral_value b))])"
proof -
  have nd: "no_digit_ahead (CHR '','' # x)" "no_digit_ahead '')''" for x
    by (simp_all add: no_digit_ahead_def digit_val_def)
  have 1: "scan_conv ConvD None (s1 @ r @ CHR '','' # x) =
      Item (ucast (strtol_value False (numeral_value r))) (CHR '','' # x)" for x
    by (rule scan_conv_numeral [OF assms(4) assms(1) nd(1)])
  have 2: "scan_conv ConvD None (s2 @ g @ CHR '','' # x) =
      Item (ucast (strtol_value False (numeral_value g))) (CHR '','' # x)" for x
    by (rule scan_conv_numeral [OF assms(5) assms(2) nd(1)])
  have 3: "scan_conv ConvD None (s3 @ b @ '')'') =
      Item (ucast (strtol_value False (numeral_value b))) '')''"
    by (rule scan_conv_numeral [OF assms(6) assms(3) nd(2)])
  have w2: "dropWhile isspace (s2 @ g @ CHR '','' # x) = g @ CHR '','' # x" for x
    using dropWhile_isspace_numeral [OF assms(5) assms(2)] by simp
  have w3: "dropWhile isspace (s3 @ b @ '')'') = b @ '')''"
    using dropWhile_isspace_numeral [OF assms(6) assms(3)] by simp
  have g2: "scan_conv ConvD None (g @ CHR '','' # x) =
      Item (ucast (strtol_value False (numeral_value g))) (CHR '','' # x)" for x
    using scan_conv_numeral [of "[]" g "CHR '','' # x"] assms(2) nd(1) by simp
  have g3: "scan_conv ConvD None (b @ '')'') =
      Item (ucast (strtol_value False (numeral_value b))) '')''"
    using scan_conv_numeral [of "[]" b "'')''"] assms(3) nd(2) by simp
  show ?thesis
    by (simp add: sscanf_def fmt_rgb_dec_def rgb_input_def 1 w2 w3 g2 g3)
qed

lemma sscanf_rgb_input_hex: "sscanf (rgb_input s1 r s2 g s3 b) fmt_hex = (0, [])"
  by (simp add: sscanf_def fmt_hex_def rgb_input_def)

lemma not_a_name_rgb_input: "not_a_name (rgb_input s1 r s2 g s3 b)"
  by (simp add: not_a_name_def rgb_input_def isalpha_def)

section \<open>Numerals\<close>

lemma numeral_value_snoc:
  "numeral_value (ds @ [c]) =
   numeral_value ds * 10 + (case digit_val c of Some d \<Rightarrow> d | None \<Rightarrow> 0)"
  by (simp add: numeral_value_def)

lemma digit_val_digit: "(d::nat) < 10 \<Longrightarrow> digit_val (char_of (48 + d)) = Some d"
  by (simp add: digit_val_def)

text \<open>The numeral of a number is a numeral, and its value is the number.\<close>

lemma decimal_numeral: "is_numeral (decimal n) \<and> numeral_value (decimal n) = n"
proof (induction n rule: decimal.induct)
  case (1 n)
  show ?case
  proof (cases "n < 10")
    case True
    then have "decimal n = [char_of (48 + n)]" by (subst decimal.simps) simp
    with True show ?thesis
      by (simp add: is_numeral_def numeral_value_def digit_val_digit)
  next
    case False
    then have dec: "decimal n = decimal (n div 10) @ [char_of (48 + n mod 10)]"
      by (subst decimal.simps) simp
    from 1 [OF False] have IH: "is_numeral (decimal (n div 10))"
      "numeral_value (decimal (n div 10)) = n div 10" by simp_all
    have d: "digit_val (char_of (48 + n mod 10)) = Some (n mod 10)"
      by (rule digit_val_digit) simp
    show ?thesis
      using IH d by (simp add: dec is_numeral_def numeral_value_snoc)
  qed
qed

section \<open>Results on \<open>ParseColor\<close>\<close>

lemma not_a_name_empty: "not_a_name ''''"
  by (simp add: not_a_name_def)




lemma ParseColor_unparsed:
  assumes "scan_first [fmt_hex, fmt_rgb_dec, fmt_rgb_hex] (translate_named html_colors s) =
           None"
  shows "ParseColor e html_colors (Some s) =
         Inr (to_rgba e 0 0 0 0, [diagnostic (translate_named html_colors s)])"
  using assms by (simp add: ParseColor_def Let_def)

lemma ParseColor_scanned:
  assumes "scan_first [fmt_hex, fmt_rgb_dec, fmt_rgb_hex] (translate_named html_colors s) =
           Some [a, b, c]"
  shows "ParseColor e html_colors (Some s) =
         Inr (to_rgba e (ucast a) (ucast b) (ucast c) 255, [])"
  using assms by (simp add: ParseColor_def Let_def)

lemma sample_names_alphabetic:
  "names_alphabetic [(''blue'', ''#0000ff''), (''red'', ''#ff0000'')]"
  by (simp add: names_alphabetic_def isalpha_def)

text \<open>
  C3, as the code has it. For a null pointer \<open>ParseColor\<close> returns the zero pixel and
  writes no diagnostic. The empty string is not guarded: with a table of alphabetic
  names it matches no name and no format, so the zero pixel is returned together with
  the diagnostic.
\<close>

theorem ParseColor_null_and_empty:
  "ParseColor e html_colors None = Inr (to_rgba e 0 0 0 0, []) \<and>
   mem_bytes e (to_rgba e 0 0 0 0) = [0, 0, 0, 0] \<and>
   (names_alphabetic html_colors \<longrightarrow>
      ParseColor e html_colors (Some '''') = Inr (to_rgba e 0 0 0 0, [diagnostic '''']))"
proof -
  have "ParseColor e html_colors (Some '''') = Inr (to_rgba e 0 0 0 0, [diagnostic ''''])"
    if "names_alphabetic html_colors"
    using ParseColor_unparsed [of html_colors "''''" e]
    by (simp only: translate_named_unchanged [OF that not_a_name_empty] scan_empty)
  then show ?thesis
    by (simp add: ParseColor_def mem_bytes_to_rgba)
qed

theorem ParseColor_null_and_empty_witness:
  "names_alphabetic [(''blue'', ''#0000ff''), (''red'', ''#ff0000'')] \<and>
   ParseColor LittleEndian [(''blue'', ''#0000ff''), (''red'', ''#ff0000'')] (Some '''') =
   Inr (to_rgba LittleEndian 0 0 0 0, [diagnostic ''''])"
  using ParseColor_null_and_empty [of LittleEndian "[(''blue'', ''#0000ff''), (''red'', ''#ff0000'')]"]
    sample_names_alphabetic
  by blast

text \<open>
  C3 fails for the empty string: \<open>ParseColor\<close> writes one line to \<open>stderr\<close>.
\<close>

theorem ParseColor_empty_diagnostic:
  "ParseColor LittleEndian [(''blue'', ''#0000ff''), (''red'', ''#ff0000'')] (Some '''') =
   Inr (to_rgba LittleEndian 0 0 0 0,
        [''Couldn'' @ [CHR 0x27] @ ''t parse color '' @ [CHR 0x27, CHR 0x27, CHR 0x0A]])"
proof -
  have "translate_named [(''blue'', ''#0000ff''), (''red'', ''#ff0000'')] '''' = ''''"
    by (simp add: tolower_def)
  then show ?thesis
    using ParseColor_unparsed [of "[(''blue'', ''#0000ff''), (''red'', ''#ff0000'')]" "''''" LittleEndian]
    by (simp only: scan_empty) (simp add: diagnostic_def)
qed



text \<open>
  C10, as the code has it. With a table of alphabetic names, for every text
  \<open>rgb(R, G, B)\<close> of three decimal numerals, with or without white space before each of
  them, \<open>ParseColor\<close> returns an opaque pixel without a diagnostic. A component of at
  most \<open>LONG_MAX\<close> gives its value modulo 256 as the channel; a larger component is
  clamped by the conversion and gives the channel 255.
\<close>

theorem ParseColor_rgb_decimal:
  assumes "names_alphabetic html_colors"
    and "is_numeral r" "is_numeral g" "is_numeral b"
    and "list_all isspace s1" "list_all isspace s2" "list_all isspace s3"
  shows "ParseColor e html_colors (Some (rgb_input s1 r s2 g s3 b)) =
           Inr (to_rgba e (component_byte (numeral_value r)) (component_byte (numeral_value g))
                  (component_byte (numeral_value b)) 255, []) \<and>
         mem_bytes e (to_rgba e (component_byte (numeral_value r))
             (component_byte (numeral_value g)) (component_byte (numeral_value b)) 255) =
           [component_byte (numeral_value r), component_byte (numeral_value g),
            component_byte (numeral_value b), 255] \<and>
         (\<forall>n. n \<le> LONG_MAX \<longrightarrow> unat (component_byte n) = n mod 256) \<and>
         (\<forall>n. LONG_MAX < n \<longrightarrow> component_byte n = 255)"
proof -
  have "scan_first [fmt_hex, fmt_rgb_dec, fmt_rgb_hex] (rgb_input s1 r s2 g s3 b) =
      Some [ucast (strtol_value False (numeral_value r)),
            ucast (strtol_value False (numeral_value g)),
            ucast (strtol_value False (numeral_value b))]"
    by (simp add: sscanf_rgb_input_hex sscanf_rgb_input [OF assms(2-7)])
  then have "ParseColor e html_colors (Some (rgb_input s1 r s2 g s3 b)) =
      Inr (to_rgba e (component_byte (numeral_value r)) (component_byte (numeral_value g))
             (component_byte (numeral_value b)) 255, [])"
    by (simp add: ParseColor_def Let_def
        translate_named_unchanged [OF assms(1) not_a_name_rgb_input] ucast_strtol_byte)
  then show ?thesis
    by (simp add: mem_bytes_to_rgba component_byte_wraps component_byte_saturates)
qed

theorem ParseColor_rgb_decimal_witness:
  "names_alphabetic [(''blue'', ''#0000ff''), (''red'', ''#ff0000'')] \<and>
   is_numeral ''300'' \<and> is_numeral ''0'' \<and> list_all isspace '' '' \<and> list_all isspace '''' \<and>
   ParseColor LittleEndian [(''blue'', ''#0000ff''), (''red'', ''#ff0000'')]
     (Some ''rgb(300, 0, 0)'') = Inr (to_rgba LittleEndian 44 0 0 255, []) \<and>
   ParseColor LittleEndian [(''blue'', ''#0000ff''), (''red'', ''#ff0000'')]
     (Some ''rgb(300,0,0)'') = Inr (to_rgba LittleEndian 44 0 0 255, []) \<and>
   (300::nat) \<le> LONG_MAX \<and> unat (component_byte 300) = 300 mod 256 \<and>
   LONG_MAX < 18446744073709551916 \<and> component_byte 18446744073709551916 = 255"
proof -
  let ?T = "[(''blue'', ''#0000ff''), (''red'', ''#ff0000'')]"
  have num: "is_numeral ''300''" "is_numeral ''0''"
    by (simp_all add: is_numeral_def digit_val_def)
  have sp: "list_all isspace '' ''" "list_all isspace ''''"
    by (simp_all add: isspace_def)
  have val: "numeral_value ''300'' = 300" "numeral_value ''0'' = 0"
    by (simp_all add: numeral_value_def digit_val_def)
  have bytes: "component_byte 300 = 44" "component_byte 0 = 0"
    by (simp_all add: component_byte_def LONG_MAX_def word_unat_eq_iff)
  have in1: "rgb_input '''' ''300'' '' '' ''0'' '' '' ''0'' = ''rgb(300, 0, 0)''"
    and in2: "rgb_input '''' ''300'' '''' ''0'' '''' ''0'' = ''rgb(300,0,0)''"
    by (simp_all add: rgb_input_def)
  have lim: "(300::nat) \<le> LONG_MAX" "LONG_MAX < 18446744073709551916"
    by (simp_all add: LONG_MAX_def)
  note a = ParseColor_rgb_decimal [OF sample_names_alphabetic num(1) num(2) num(2) sp(2) sp(1) sp(1),
      of LittleEndian, unfolded in1 val bytes]
  note b = ParseColor_rgb_decimal [OF sample_names_alphabetic num(1) num(2) num(2) sp(2) sp(2) sp(2),
      of LittleEndian, unfolded in2 val bytes]
  from a b sample_names_alphabetic num sp lim show ?thesis by blast
qed

text \<open>
  C10 fails for a component of \<open>2^64 + 300\<close>: \<open>ParseColor\<close> returns the red channel 255,
  not \<open>(2^64 + 300) mod 256 = 44\<close>. The value is clamped, not wrapped.
\<close>

theorem ParseColor_rgb_decimal_overflow:
  "ParseColor LittleEndian [(''blue'', ''#0000ff''), (''red'', ''#ff0000'')]
     (Some ''rgb(18446744073709551916, 0, 0)'') = Inr (to_rgba LittleEndian 255 0 0 255, []) \<and>
   (18446744073709551916::nat) mod 256 = 44 \<and>
   to_rgba LittleEndian 255 0 0 255 \<noteq> to_rgba LittleEndian 44 0 0 255"
proof -
  let ?T = "[(''blue'', ''#0000ff''), (''red'', ''#ff0000'')]"
  have tn: "translate_named ?T ''rgb(18446744073709551916, 0, 0)'' =
      ''rgb(18446744073709551916, 0, 0)''"
    by (simp add: tolower_def char_of_eq_iff_nat)
  have sc: "scan_first [fmt_hex, fmt_rgb_dec, fmt_rgb_hex]
      ''rgb(18446744073709551916, 0, 0)'' = Some [0xFFFFFFFF, 0, 0]"
    by (simp add: scan_defs)
  have sc': "scan_first [fmt_hex, fmt_rgb_dec, fmt_rgb_hex]
      (translate_named ?T ''rgb(18446744073709551916, 0, 0)'') = Some [0xFFFFFFFF, 0, 0]"
    unfolding tn by (rule sc)
  have e: "(ucast (0xFFFFFFFF :: u32) :: u8) = 255"
    by (simp add: word_unat_eq_iff)
  have 1: "ParseColor LittleEndian ?T (Some ''rgb(18446744073709551916, 0, 0)'') =
      Inr (to_rgba LittleEndian 255 0 0 255, [])"
    using ParseColor_scanned [OF sc', of LittleEndian] unfolding e ucast_0 .
  have 2: "(18446744073709551916::nat) mod 256 = 44" by simp
  have 3: "to_rgba LittleEndian 255 0 0 255 \<noteq> to_rgba LittleEndian 44 0 0 255"
  proof
    assume "to_rgba LittleEndian 255 0 0 255 = to_rgba LittleEndian 44 0 0 255"
    then have "mem_bytes LittleEndian (to_rgba LittleEndian 255 0 0 255) =
        mem_bytes LittleEndian (to_rgba LittleEndian 44 0 0 255)" by simp
    then show False by (simp add: mem_bytes_to_rgba)
  qed
  from 1 2 3 show ?thesis by blast
qed

end
